theory Spec2Isabelle
  imports Main "HOL-Library.Word"
begin

unbundle bit_operations_syntax

section \<open>Python values used by the two modules\<close>

text \<open>
  Every \<^verbatim>\<open>assert\<close> of the source is a branch of the model. The argument of
  \<open>AssertionError\<close> says which assertion failed, in the order of the source:
  \<^verbatim>\<open>galois.py\<close> lines 24, 31, 32, 36, 46/54, 65, 82, 85 and
  \<^verbatim>\<open>modes.py\<close> lines 137/188, 199, 245.
\<close>

datatype check =
    UnsupportedWidth
  | NegativeValue
  | DegreeMismatch
  | ValueTooWide
  | WidthMismatch
  | ShiftedValLength
  | ShiftedIrrPolLength
  | UpperBitsNonzero
  | NonceCounterSize
  | HeaderTooLong
  | OnlyOneBlock

datatype error =
    AssertionError check
  | IndexError
  | ValueError
  | OverflowError
  | RuntimeError
  | NameError
  | PaddingError

type_synonym byte = "8 word"
type_synonym bytes = "byte list"

text \<open>Sequencing of fallible steps: the first error wins, as a raised exception does.\<close>

definition bind_err :: "error + 'a \<Rightarrow> ('a \<Rightarrow> error + 'b) \<Rightarrow> error + 'b" where
  "bind_err m f = (case m of Inl e \<Rightarrow> Inl e | Inr v \<Rightarrow> f v)"

text \<open>\<^verbatim>\<open>xs[i] = v\<close> on a Python list: a negative index counts from the end, an
  index outside the list raises IndexError.\<close>

definition py_set :: "'a list \<Rightarrow> int \<Rightarrow> 'a \<Rightarrow> error + 'a list" where
  "py_set xs i v =
     (let n = int (length xs); j = (if i < 0 then i + n else i)
      in if 0 \<le> j \<and> j < n then Inr (xs[nat j := v]) else Inl IndexError)"

text \<open>\<^verbatim>\<open>max(xs)\<close>: ValueError on an empty list.\<close>

definition py_max :: "int list \<Rightarrow> error + int" where
  "py_max xs = (case xs of [] \<Rightarrow> Inl ValueError | x # rest \<Rightarrow> Inr (fold max rest x))"

text \<open>\<^verbatim>\<open>f'{i}'\<close> for an integer: its decimal digits, with a minus sign when negative.\<close>

fun str_nat :: "nat \<Rightarrow> string" where
  "str_nat n =
     (if n < 10 then [''0123456789'' ! n]
      else str_nat (n div 10) @ [''0123456789'' ! (n mod 10)])"

definition str_int :: "int \<Rightarrow> string" where
  "str_int i = (if i < 0 then CHR ''-'' # str_nat (nat (- i)) else str_nat (nat i))"

text \<open>\<^verbatim>\<open>int(s, 2)\<close> on a string made of decimal digits and minus signs (all that
  \<open>str_int\<close> produces): an optional sign, then at least one binary digit; anything else
  is a ValueError.\<close>

definition base2_digits :: "string \<Rightarrow> error + int" where
  "base2_digits ds =
     (if ds = [] \<or> \<not> list_all (\<lambda>c. c = CHR ''0'' \<or> c = CHR ''1'') ds then Inl ValueError
      else Inr (foldl (\<lambda>acc c. 2 * acc + (if c = CHR ''1'' then 1 else 0)) 0 ds))"

definition int_base2 :: "string \<Rightarrow> error + int" where
  "int_base2 s =
     (case s of
        [] \<Rightarrow> Inl ValueError
      | c # ds \<Rightarrow>
          if c = CHR ''-'' then bind_err (base2_digits ds) (\<lambda>v. Inr (- v))
          else base2_digits s)"

text \<open>\<^verbatim>\<open>int.from_bytes(b, "little")\<close> and \<^verbatim>\<open>v.to_bytes(n, "little" | "big")\<close>;
  the latter raises OverflowError when \<open>v\<close> is negative or does not fit in \<open>n\<close> bytes.\<close>

fun from_bytes_little :: "bytes \<Rightarrow> int" where
  "from_bytes_little [] = 0"
| "from_bytes_little (b # bs) = uint b + 256 * from_bytes_little bs"

fun le_bytes :: "nat \<Rightarrow> int \<Rightarrow> bytes" where
  "le_bytes 0 v = []"
| "le_bytes (Suc n) v = word_of_int (v mod 256) # le_bytes n (v div 256)"

definition to_bytes_little :: "int \<Rightarrow> nat \<Rightarrow> error + bytes" where
  "to_bytes_little v n = (if v < 0 \<or> 256 ^ n \<le> v then Inl OverflowError else Inr (le_bytes n v))"

definition to_bytes_big :: "int \<Rightarrow> nat \<Rightarrow> error + bytes" where
  "to_bytes_big v n = (if v < 0 \<or> 256 ^ n \<le> v then Inl OverflowError else Inr (rev (le_bytes n v)))"

section \<open>galois.py: arithmetic over GF(2^n) polynomials\<close>

text \<open>The table \<^verbatim>\<open>irreducible_polynomials\<close>, a dict from bit-width to exponent list.\<close>

definition irreducible_polynomials :: "nat \<rightharpoonup> int list" where
  "irreducible_polynomials =
     map_of [(8, [8, 4, 3, 1, 0]),
             (64, [64, 4, 3, 1, 0]),
             (128, [128, 7, 2, 1, 0]),
             (256, [256, 10, 5, 2, 0]),
             (512, [512, 8, 5, 2, 0])]"

text \<open>An object of class \<^verbatim>\<open>GaloisPolynomial\<close>: its three attributes. The attribute
  \<^verbatim>\<open>length\<close> is \<open>length_gp\<close> here. The entries of \<open>bits\<close> are Python integers,
  most significant first.\<close>

record GaloisPolynomial =
  irr_pol :: "int list"
  length_gp :: nat
  bits :: "int list"

text \<open>The \<^verbatim>\<open>while initial_value > 0\<close> loop of the constructor (lines 34 to 39).\<close>

function init_loop :: "int list \<Rightarrow> int \<Rightarrow> int \<Rightarrow> error + int list" where
  "init_loop bs i initial_value =
     (if initial_value > 0 then
        (if \<not> i \<ge> 0 then Inl (AssertionError ValueTooWide)
         else init_loop (bs[nat i := initial_value mod 2]) (i - 1) (initial_value div 2))
      else Inr bs)"
  by pat_completeness auto
termination
  by (relation "measure (\<lambda>(bs, i, v). nat v)") auto

text \<open>\<^verbatim>\<open>GaloisPolynomial.__init__\<close> (lines 22 to 39).\<close>

definition GaloisPolynomial_init :: "nat \<Rightarrow> int \<Rightarrow> int list \<Rightarrow> error + GaloisPolynomial" where
  "GaloisPolynomial_init num_bits initial_value irreducible_polynomial =
     bind_err
       (if irreducible_polynomial = [] then
          (case irreducible_polynomials num_bits of
             None \<Rightarrow> Inl (AssertionError UnsupportedWidth)
           | Some p \<Rightarrow> Inr p)
        else Inr irreducible_polynomial)
       (\<lambda>p.
          if \<not> initial_value \<ge> 0 then Inl (AssertionError NegativeValue)
          else bind_err (py_max p) (\<lambda>m.
            if m \<noteq> int num_bits then Inl (AssertionError DegreeMismatch)
            else bind_err (init_loop (replicate num_bits 0) (int num_bits - 1) initial_value)
              (\<lambda>bs. Inr \<lparr>irr_pol = p, length_gp = num_bits, bits = bs\<rparr>)))"

text \<open>\<^verbatim>\<open>GaloisPolynomial.intval\<close> (lines 41 and 42): the bits are rendered, joined
  and parsed in base 2.\<close>

definition intval :: "GaloisPolynomial \<Rightarrow> error + int" where
  "intval self = int_base2 (concat (map str_int (bits self)))"

text \<open>\<^verbatim>\<open>GaloisPolynomial.xor\<close> (lines 44 to 50). The loop reads index \<open>i\<close> of both
  operands for \<open>i\<close> from 0 upwards, so it raises IndexError exactly when one of the two
  bit lists is shorter than \<open>length_gp self\<close>.\<close>

definition xor_gp :: "GaloisPolynomial \<Rightarrow> GaloisPolynomial \<Rightarrow> error + GaloisPolynomial" where
  "xor_gp self other =
     (if length_gp self \<noteq> length_gp other then Inl (AssertionError WidthMismatch)
      else bind_err (GaloisPolynomial_init (length_gp self) 0 (irr_pol self)) (\<lambda>output.
        if length (bits self) < length_gp self \<or> length (bits other) < length_gp self
        then Inl IndexError
        else Inr (output\<lparr>bits :=
               map (\<lambda>i. bits self ! i XOR bits other ! i) [0..<length_gp self]\<rparr>)))"

text \<open>\<^verbatim>\<open>GaloisPolynomial.mult\<close>, lines 56 to 61: one shifted copy of the left operand
  for every set bit of the right operand.\<close>

fun shift_loop ::
  "GaloisPolynomial \<Rightarrow> GaloisPolynomial \<Rightarrow> nat list \<Rightarrow> int list list \<Rightarrow> error + int list list" where
  "shift_loop self other [] shifted_vals = Inr shifted_vals"
| "shift_loop self other (shift # rest) shifted_vals =
     (let index = length_gp self - 1 - shift in
      if \<not> index < length (bits other) then Inl IndexError
      else if bits other ! index = 1 then
        shift_loop self other rest
          (shifted_vals @
             [replicate (length_gp self - shift) 0 @ bits self @ replicate shift 0])
      else shift_loop self other rest shifted_vals)"

text \<open>Lines 67 to 72: the column sums of the shifted copies, modulo 2.\<close>

definition column_sums :: "int list list \<Rightarrow> nat \<Rightarrow> int list" where
  "column_sums shifted_vals expected_length =
     map (\<lambda>i. sum_list (map (\<lambda>sv. sv ! i) shifted_vals) mod 2) [0..<expected_length]"

text \<open>Lines 74 to 77: the dense form of the exponent list.\<close>

fun set_exponents :: "int list \<Rightarrow> nat \<Rightarrow> int list \<Rightarrow> error + int list" where
  "set_exponents [] ip_len irr_pol_list = Inr irr_pol_list"
| "set_exponents (index # rest) ip_len irr_pol_list =
     bind_err (py_set irr_pol_list (int ip_len - 1 - index) 1) (set_exponents rest ip_len)"

text \<open>Lines 79 to 84: the reduction loop. The inner loop reuses the name \<^verbatim>\<open>i\<close>, which
  does not disturb the outer \<^verbatim>\<open>for\<close>: it takes its next value from the range.\<close>

fun reduce_loop :: "int list \<Rightarrow> nat \<Rightarrow> nat \<Rightarrow> nat list \<Rightarrow> int list \<Rightarrow> error + int list" where
  "reduce_loop irr_pol_list expected_length ip_len [] intermediate_polynomial =
     Inr intermediate_polynomial"
| "reduce_loop irr_pol_list expected_length ip_len (i # rest) intermediate_polynomial =
     (if intermediate_polynomial ! i = 1 then
        (let shifted_irr_pol =
               replicate i 0 @ irr_pol_list @ replicate (expected_length - ip_len - i) 0
         in if length shifted_irr_pol \<noteq> expected_length
            then Inl (AssertionError ShiftedIrrPolLength)
            else reduce_loop irr_pol_list expected_length ip_len rest
                   (map (\<lambda>j. intermediate_polynomial ! j XOR shifted_irr_pol ! j)
                      [0..<expected_length]))
      else reduce_loop irr_pol_list expected_length ip_len rest intermediate_polynomial)"

text \<open>Lines 53 to 84: the intermediate polynomial as it stands when the reduction loop
  has ended, before the assertion of line 85.\<close>

definition mult_reduced :: "GaloisPolynomial \<Rightarrow> GaloisPolynomial \<Rightarrow> error + int list" where
  "mult_reduced self other =
     (if length_gp self \<noteq> length_gp other then Inl (AssertionError WidthMismatch)
      else bind_err (shift_loop self other [0..<length_gp self] []) (\<lambda>shifted_vals.
        let expected_length = length_gp self * 2 in
        if \<not> list_all (\<lambda>sv. length sv = expected_length) shifted_vals
        then Inl (AssertionError ShiftedValLength)
        else
          let intermediate_polynomial = column_sums shifted_vals expected_length;
              ip_len = length_gp self + 1
          in bind_err (set_exponents (irr_pol self) ip_len (replicate ip_len 0))
               (\<lambda>irr_pol_list.
                  reduce_loop irr_pol_list expected_length ip_len
                    [0..<expected_length - length_gp self] intermediate_polynomial)))"

text \<open>Lines 85 to 90: the assertion on the upper half, the truncation and the result.\<close>

definition mult :: "GaloisPolynomial \<Rightarrow> GaloisPolynomial \<Rightarrow> error + GaloisPolynomial" where
  "mult self other =
     bind_err (mult_reduced self other) (\<lambda>intermediate_polynomial.
       let expected_length = length_gp self * 2 in
       if take (expected_length - length_gp self) intermediate_polynomial
            \<noteq> replicate (expected_length - length_gp self) 0
       then Inl (AssertionError UpperBitsNonzero)
       else bind_err (GaloisPolynomial_init (length_gp self) 0 (irr_pol self)) (\<lambda>output.
         Inr (output\<lparr>bits := drop (expected_length - length_gp self) intermediate_polynomial\<rparr>)))"

section \<open>modes.py: the modes of operation\<close>

text \<open>The two collaborators, by their call contracts: a cipher (\<^verbatim>\<open>block_size\<close>,
  \<^verbatim>\<open>encrypt_block\<close>, \<^verbatim>\<open>decrypt_block\<close>) and a padding scheme (\<^verbatim>\<open>apply\<close>, here
  \<open>apply_padding\<close>, and \<^verbatim>\<open>remove\<close>).\<close>

record Cipher =
  block_size :: nat
  encrypt_block :: "bytes \<Rightarrow> bytes"
  decrypt_block :: "bytes \<Rightarrow> bytes"

record PaddingScheme =
  apply_padding :: "bytes \<Rightarrow> bytes"
  remove :: "bytes \<Rightarrow> bytes"

text \<open>A generator, run to its end: the elements it yielded, then how it ended, with an
  error raised on the way (\<open>Inl\<close>) or normally (\<open>Inr\<close>, with what the caller can observe
  at that point).\<close>

type_synonym ('a, 'r) generator = "'a list \<times> (error + 'r)"

definition yield :: "'a \<Rightarrow> ('a, 'r) generator \<Rightarrow> ('a, 'r) generator" where
  "yield x rest = (x # fst rest, snd rest)"

definition try_gen :: "error + 'b \<Rightarrow> ('b \<Rightarrow> ('a, 'r) generator) \<Rightarrow> ('a, 'r) generator" where
  "try_gen m f = (case m of Inl e \<Rightarrow> ([], Inl e) | Inr v \<Rightarrow> f v)"

text \<open>Modelled from the spec: \<^verbatim>\<open>eof_signal_iterator\<close> of \<^verbatim>\<open>iterators.py\<close>, which is
  not among the source files. The spec (4.2) has it produce the chunks of the source in
  order, each paired with \<^verbatim>\<open>is_last\<close>, true for the final chunk only. It does not say what
  an empty source gives; here it gives no pair.\<close>

fun eof_signal_iterator :: "'a list \<Rightarrow> ('a \<times> bool) list" where
  "eof_signal_iterator [] = []"
| "eof_signal_iterator [x] = [(x, True)]"
| "eof_signal_iterator (x # y # ys) = (x, False) # eof_signal_iterator (y # ys)"

text \<open>\<^verbatim>\<open>ModeOfOperation\<close>: the attribute \<^verbatim>\<open>block_size\<close> is a copy of the cipher's, read
  here as \<open>block_size (cipher self)\<close>. \<^verbatim>\<open>_xor\<close> (lines 16 and 17) is \<open>xor_mode\<close>.\<close>

record ModeOfOperation =
  cipher :: Cipher

definition xor_mode :: "bytes \<Rightarrow> bytes \<Rightarrow> bytes" where
  "xor_mode block1 block2 = map (\<lambda>(a, b). a XOR b) (zip block1 block2)"

subsection \<open>CBC\<close>

text \<open>A CBC session: \<^verbatim>\<open>cipher_block\<close> is \<^verbatim>\<open>None\<close> when the session is created.\<close>

record CBC = ModeOfOperation +
  iv :: bytes
  cipher_block :: "bytes option"
  padding_scheme :: PaddingScheme

definition CBC_init :: "Cipher \<Rightarrow> bytes \<Rightarrow> PaddingScheme \<Rightarrow> CBC" where
  "CBC_init c v p = \<lparr>cipher = c, iv = v, cipher_block = None, padding_scheme = p\<rparr>"

text \<open>Lines 76 to 101: the new value of \<^verbatim>\<open>cipher_block\<close> for one chunk.\<close>

definition cbc_encrypt_block :: "CBC \<Rightarrow> bytes \<Rightarrow> bool \<Rightarrow> bytes \<Rightarrow> error + bytes" where
  "cbc_encrypt_block self data eof cb =
     (if \<not> eof then Inr (encrypt_block (cipher self) (xor_mode data cb))
      else
        let block = apply_padding (padding_scheme self) data in
        if length block = block_size (cipher self)
        then Inr (encrypt_block (cipher self) (xor_mode block cb))
        else if length block = 2 * block_size (cipher self) then
          (let last_block =
                 encrypt_block (cipher self) (xor_mode (take (block_size (cipher self)) block) cb);
               cb' = encrypt_block (cipher self)
                       (xor_mode (drop (block_size (cipher self)) block) last_block)
           in Inr (last_block @ cb'))
        else Inl PaddingError)"

text \<open>\<^verbatim>\<open>CBC.encrypt\<close> (lines 66 to 102). \<^verbatim>\<open>not self.cipher_block\<close> holds for \<^verbatim>\<open>None\<close>
  and for the empty byte string. The generator ends with the session's \<^verbatim>\<open>cipher_block\<close>.\<close>

fun cbc_encrypt_loop ::
  "CBC \<Rightarrow> (bytes \<times> bool) list \<Rightarrow> bytes option \<Rightarrow> (bytes, bytes option) generator" where
  "cbc_encrypt_loop self [] cb = ([], Inr cb)"
| "cbc_encrypt_loop self ((data, eof) # rest) cb =
     (if cb = None \<or> cb = Some [] then
        yield (iv self)
          (try_gen (cbc_encrypt_block self data eof (iv self)) (\<lambda>cb'.
             yield cb' (cbc_encrypt_loop self rest (Some cb'))))
      else
        try_gen (cbc_encrypt_block self data eof (the cb)) (\<lambda>cb'.
          yield cb' (cbc_encrypt_loop self rest (Some cb'))))"

definition CBC_encrypt :: "CBC \<Rightarrow> bytes list \<Rightarrow> (bytes, bytes option) generator" where
  "CBC_encrypt self block_iterator =
     cbc_encrypt_loop self (eof_signal_iterator block_iterator) (cipher_block self)"

text \<open>\<^verbatim>\<open>CBC.decrypt\<close> (lines 104 to 118). \<^verbatim>\<open>next\<close> on an exhausted iterator raises
  StopIteration, which a generator turns into RuntimeError.\<close>

fun cbc_decrypt_loop ::
  "CBC \<Rightarrow> (bytes \<times> bool) list \<Rightarrow> bytes \<Rightarrow> (bytes, bytes option) generator" where
  "cbc_decrypt_loop self [] cb = ([], Inr (Some cb))"
| "cbc_decrypt_loop self ((data, eof) # rest) cb =
     (let plaintext = xor_mode (decrypt_block (cipher self) data) cb;
          block = (if \<not> eof then plaintext else remove (padding_scheme self) plaintext)
      in yield block (cbc_decrypt_loop self rest data))"

definition CBC_decrypt :: "CBC \<Rightarrow> bytes list \<Rightarrow> (bytes, bytes option) generator" where
  "CBC_decrypt self block_iterator =
     (case eof_signal_iterator block_iterator of
        [] \<Rightarrow> ([], Inl RuntimeError)
      | (first, eof) # rest \<Rightarrow> cbc_decrypt_loop self rest first)"

subsection \<open>CTR\<close>

record CTR = ModeOfOperation +
  nonce :: bytes

text \<open>\<^verbatim>\<open>_get_xor_block\<close> (lines 130 to 139; the method of \<^verbatim>\<open>GCM\<close>, lines 181 to 190,
  has the same text).\<close>

definition get_xor_block :: "'a CTR_scheme \<Rightarrow> int \<Rightarrow> error + bytes" where
  "get_xor_block self counter =
     bind_err (to_bytes_big counter (length (nonce self))) (\<lambda>counter_bytes.
       let nonce_and_counter = nonce self @ counter_bytes in
       if length nonce_and_counter \<noteq> block_size (cipher self)
       then Inl (AssertionError NonceCounterSize)
       else Inr (encrypt_block (cipher self) nonce_and_counter))"

text \<open>\<^verbatim>\<open>CTR.encrypt\<close> (lines 141 to 156) and \<^verbatim>\<open>CTR.decrypt\<close> (lines 158 to 161).\<close>

fun ctr_loop :: "CTR \<Rightarrow> (bytes \<times> bool) list \<Rightarrow> int \<Rightarrow> (bytes, unit) generator" where
  "ctr_loop self [] counter = ([], Inr ())"
| "ctr_loop self ((data, eof) # rest) counter =
     try_gen (get_xor_block self counter) (\<lambda>xor_block.
       let xor_block' = (if eof \<and> length data < block_size (cipher self)
                         then take (length data) xor_block else xor_block);
           ciphertext = xor_mode data xor_block'
       in yield ciphertext (ctr_loop self rest (counter + 1)))"

definition CTR_encrypt :: "CTR \<Rightarrow> bytes list \<Rightarrow> (bytes, unit) generator" where
  "CTR_encrypt self block_iterator = ctr_loop self (eof_signal_iterator block_iterator) 0"

definition CTR_decrypt :: "CTR \<Rightarrow> bytes list \<Rightarrow> (bytes, unit) generator" where
  "CTR_decrypt self block_iterator = CTR_encrypt self block_iterator"

subsection \<open>GCM\<close>

text \<open>A GCM session has the attributes of a CTR session and a header. The class repeats
  the \<^verbatim>\<open>_get_xor_block\<close> of CTR line for line (lines 181 to 190), so the record extends
  the CTR record and \<open>get_xor_block\<close> serves both. \<^verbatim>\<open>GP(n, v)\<close> is the constructor of the
  field element with the polynomial of the table.\<close>

record GCM = CTR +
  header :: bytes

definition GP :: "nat \<Rightarrow> int \<Rightarrow> error + GaloisPolynomial" where
  "GP num_bits initial_value = GaloisPolynomial_init num_bits initial_value []"

definition num_bits :: "GCM \<Rightarrow> nat" where
  "num_bits self = 8 * block_size (cipher self)"

text \<open>Lines 226 and 227 (270 and 271): the integer of the extra block.\<close>

definition extra_block :: "GCM \<Rightarrow> int \<Rightarrow> int" where
  "extra_block self counter =
     push_bit (num_bits self div 2) (int (length (header self))) + counter"

text \<open>Lines 226 to 232 (270 to 276): the bytes of the GMAC.\<close>

definition gmac_bytes ::
  "GCM \<Rightarrow> GaloisPolynomial \<Rightarrow> GaloisPolynomial \<Rightarrow> GaloisPolynomial \<Rightarrow> int \<Rightarrow> error + bytes" where
  "gmac_bytes self Ek_0 ek_nonce rolling_polynomial counter =
     bind_err (GP (num_bits self) (extra_block self counter)) (\<lambda>extra_block_gp.
     bind_err (xor_gp rolling_polynomial extra_block_gp) (\<lambda>t.
     bind_err (mult t Ek_0) (\<lambda>rolling_polynomial'.
     bind_err (xor_gp rolling_polynomial' ek_nonce) (\<lambda>gmac.
     bind_err (intval gmac) (\<lambda>v.
     to_bytes_little v (block_size (cipher self)))))))"

text \<open>\<^verbatim>\<open>GCM.encrypt\<close> (lines 192 to 232): the loop with its finalization, then the
  whole method.\<close>

fun gcm_encrypt_loop ::
  "GCM \<Rightarrow> GaloisPolynomial \<Rightarrow> GaloisPolynomial \<Rightarrow> (bytes \<times> bool) list \<Rightarrow>
   GaloisPolynomial \<Rightarrow> int \<Rightarrow> (bytes, unit) generator" where
  "gcm_encrypt_loop self Ek_0 ek_nonce [] rolling_polynomial counter =
     try_gen (gmac_bytes self Ek_0 ek_nonce rolling_polynomial counter) (\<lambda>tag.
       yield tag ([], Inr ()))"
| "gcm_encrypt_loop self Ek_0 ek_nonce ((data, eof) # rest) rolling_polynomial counter =
     try_gen (get_xor_block self counter) (\<lambda>xor_block.
       let ciphertext = xor_mode data xor_block in
       try_gen (GP (num_bits self) (from_bytes_little ciphertext)) (\<lambda>C.
       try_gen (bind_err (xor_gp rolling_polynomial C) (\<lambda>t. mult t Ek_0))
         (\<lambda>rolling_polynomial'.
            yield ciphertext
              (gcm_encrypt_loop self Ek_0 ek_nonce rest rolling_polynomial' (counter + 1)))))"

definition GCM_encrypt :: "GCM \<Rightarrow> bytes list \<Rightarrow> (bytes, unit) generator" where
  "GCM_encrypt self block_iterator =
     try_gen (get_xor_block self 0) (\<lambda>b0.
     try_gen (GP (num_bits self) (from_bytes_little b0)) (\<lambda>ek_nonce.
       if \<not> length (header self) \<le> block_size (cipher self)
       then ([], Inl (AssertionError HeaderTooLong))
       else
         try_gen (GP (num_bits self) (from_bytes_little (header self))) (\<lambda>A.
         try_gen (to_bytes_little (from_bytes_little (header self)) (block_size (cipher self)))
           (\<lambda>header_bytes.
              yield header_bytes
                (try_gen (to_bytes_little 0 (block_size (cipher self))) (\<lambda>zero_bytes.
                 try_gen (GP (num_bits self)
                            (from_bytes_little (encrypt_block (cipher self) zero_bytes)))
                   (\<lambda>Ek_0.
                 try_gen (mult A Ek_0) (\<lambda>rolling_polynomial.
                   gcm_encrypt_loop self Ek_0 ek_nonce (eof_signal_iterator block_iterator)
                     rolling_polynomial 1))))))))"

text \<open>\<^verbatim>\<open>GCM.decrypt\<close> (lines 234 to 281). The loop leaves at the chunk marked last,
  which stays bound to \<^verbatim>\<open>ciphertext\<close>; the generator ends with the outcome of the
  comparison of line 278 (\<open>True\<close> for "Message verified correctly"). Were the loop to end
  without any chunk, line 278 would find \<^verbatim>\<open>ciphertext\<close> unbound.\<close>

fun gcm_decrypt_loop ::
  "GCM \<Rightarrow> GaloisPolynomial \<Rightarrow> GaloisPolynomial \<Rightarrow> (bytes \<times> bool) list \<Rightarrow>
   GaloisPolynomial \<Rightarrow> int \<Rightarrow> bytes option \<Rightarrow> (bytes, bool) generator" where
  "gcm_decrypt_loop self Ek_0 ek_nonce [] rolling_polynomial counter last_ciphertext =
     try_gen (gmac_bytes self Ek_0 ek_nonce rolling_polynomial counter) (\<lambda>tag.
       case last_ciphertext of
         None \<Rightarrow> ([], Inl NameError)
       | Some ciphertext \<Rightarrow> ([], Inr (tag = ciphertext)))"
| "gcm_decrypt_loop self Ek_0 ek_nonce ((ciphertext, eof) # rest) rolling_polynomial counter
     last_ciphertext =
     (if eof then
        try_gen (gmac_bytes self Ek_0 ek_nonce rolling_polynomial counter) (\<lambda>tag.
          ([], Inr (tag = ciphertext)))
      else
        try_gen (get_xor_block self counter) (\<lambda>xor_block.
          let data = xor_mode ciphertext xor_block in
          try_gen (GP (num_bits self) (from_bytes_little ciphertext)) (\<lambda>C.
          try_gen (bind_err (xor_gp rolling_polynomial C) (\<lambda>t. mult t Ek_0))
            (\<lambda>rolling_polynomial'.
               yield data
                 (gcm_decrypt_loop self Ek_0 ek_nonce rest rolling_polynomial' (counter + 1)
                    (Some ciphertext))))))"

definition GCM_decrypt :: "GCM \<Rightarrow> bytes list \<Rightarrow> (bytes, bool) generator" where
  "GCM_decrypt self block_iterator =
     try_gen (get_xor_block self 0) (\<lambda>b0.
     try_gen (GP (num_bits self) (from_bytes_little b0)) (\<lambda>ek_nonce.
       case eof_signal_iterator block_iterator of
         [] \<Rightarrow> ([], Inl RuntimeError)
       | (header_bytes, b) # rest \<Rightarrow>
           if b then ([], Inl (AssertionError OnlyOneBlock))
           else
             try_gen (GP (num_bits self) (from_bytes_little header_bytes)) (\<lambda>A.
             try_gen (to_bytes_little 0 (block_size (cipher self))) (\<lambda>zero_bytes.
             try_gen (GP (num_bits self)
                        (from_bytes_little (encrypt_block (cipher self) zero_bytes)))
               (\<lambda>Ek_0.
             try_gen (mult A Ek_0) (\<lambda>rolling_polynomial.
               gcm_decrypt_loop self Ek_0 ek_nonce rest rolling_polynomial 1 None))))))"

section \<open>Bit lists and the integers they stand for\<close>

text \<open>The representation invariant of a bit list: every entry is 0 or 1.\<close>

definition bit01 :: "int list \<Rightarrow> bool" where
  "bit01 bs = list_all (\<lambda>b. b = 0 \<or> b = 1) bs"

text \<open>The integer a most-significant-first bit list stands for, and the \<open>n\<close>-bit list
  of an integer.\<close>

definition bits_value :: "int list \<Rightarrow> int" where
  "bits_value bs = foldl (\<lambda>acc b. 2 * acc + b) 0 bs"

fun bits_of :: "nat \<Rightarrow> int \<Rightarrow> int list" where
  "bits_of 0 v = []"
| "bits_of (Suc n) v = bits_of n (v div 2) @ [v mod 2]"

text \<open>The field element of width \<open>n\<close>, polynomial \<open>p\<close> and value \<open>v\<close>, and the
  representation invariant of an object: \<open>n\<close> bits, each 0 or 1, and an exponent list
  whose maximum is the width (what the constructor asserts).\<close>

definition element :: "nat \<Rightarrow> int list \<Rightarrow> int \<Rightarrow> GaloisPolynomial" where
  "element n p v = \<lparr>irr_pol = p, length_gp = n, bits = bits_of n v\<rparr>"

definition valid_gp :: "GaloisPolynomial \<Rightarrow> bool" where
  "valid_gp g \<longleftrightarrow>
     length (bits g) = length_gp g \<and> bit01 (bits g) \<and> py_max (irr_pol g) = Inr (int (length_gp g))"

section \<open>The field product as the specification states it\<close>

text \<open>The carry-less product of two polynomials over GF(2), each held as the integer
  whose bit \<open>i\<close> is the coefficient of \<open>x^i\<close>: for every set bit of the right operand,
  the left operand shifted to that position, all added with XOR.\<close>

function carryless_product :: "int \<Rightarrow> int \<Rightarrow> int" where
  "carryless_product a b =
     (if b \<le> 0 then 0
      else (if odd b then a else 0) XOR carryless_product (2 * a) (b div 2))"
  by pat_completeness auto
termination
  by (relation "measure (\<lambda>(a, b). nat b)") auto

declare carryless_product.simps [simp del]

text \<open>Long division by a polynomial \<open>P\<close> of degree \<open>n\<close>: for \<open>j\<close> from \<open>k - 1\<close> down
  to 0, a set coefficient of \<open>x^(n + j)\<close> is cancelled by adding \<open>x^j * P\<close>. What is left
  is the remainder modulo \<open>P\<close>.\<close>

primrec poly_reduce :: "nat \<Rightarrow> int \<Rightarrow> nat \<Rightarrow> int \<Rightarrow> int" where
  "poly_reduce n P 0 v = v"
| "poly_reduce n P (Suc j) v =
     poly_reduce n P j (if bit v (n + j) then v XOR push_bit j P else v)"

text \<open>The polynomial of an exponent list, and the product in GF(2^n): the carry-less
  product reduced modulo that polynomial.\<close>

definition poly_of_exponents :: "int list \<Rightarrow> int" where
  "poly_of_exponents es = fold (\<lambda>e. set_bit (nat e)) es 0"

definition gf_mult :: "nat \<Rightarrow> int list \<Rightarrow> int \<Rightarrow> int \<Rightarrow> int" where
  "gf_mult n p a b = poly_reduce n (poly_of_exponents p) n (carryless_product a b)"

text \<open>The XOR of a list of integers.\<close>

definition xor_sum :: "int list \<Rightarrow> int" where
  "xor_sum vs = foldr (XOR) vs 0"

section \<open>The modes as the specification states them\<close>

text \<open>The CTR keystream applied to a list of chunks: chunk number \<open>k\<close> is XORed with
  \<open>encrypt_block\<close> of the nonce followed by the big-endian bytes of \<open>counter + k\<close>, in as
  many bytes as the nonce has.\<close>

fun keystream_xor :: "'a CTR_scheme \<Rightarrow> int \<Rightarrow> bytes list \<Rightarrow> bytes list" where
  "keystream_xor self counter [] = []"
| "keystream_xor self counter (data # rest) =
     xor_mode data
       (encrypt_block (cipher self) (nonce self @ rev (le_bytes (length (nonce self)) counter)))
     # keystream_xor self (counter + 1) rest"

text \<open>The authentication accumulator over integers: each ciphertext block, read as a
  little-endian integer, is XORed into the accumulator, which is then multiplied by \<open>H\<close> in
  the field.\<close>

fun ghash :: "nat \<Rightarrow> int list \<Rightarrow> int \<Rightarrow> int \<Rightarrow> bytes list \<Rightarrow> int" where
  "ghash n p H acc [] = acc"
| "ghash n p H acc (c # cs) = ghash n p H (gf_mult n p (acc XOR from_bytes_little c) H) cs"

text \<open>A GCM session the code accepts: \<open>8 * block_size\<close> is a width of the table (with
  polynomial \<open>p\<close>), the nonce is half a block, the header is at most one block, and the
  cipher keeps to its contract, returning a block for a block.\<close>

definition gcm_config :: "GCM \<Rightarrow> int list \<Rightarrow> bool" where
  "gcm_config self p \<longleftrightarrow>
     irreducible_polynomials (num_bits self) = Some p \<and>
     length (nonce self) + length (nonce self) = block_size (cipher self) \<and>
     length (header self) \<le> block_size (cipher self) \<and>
     (\<forall>b. length b = block_size (cipher self) \<longrightarrow>
          length (encrypt_block (cipher self) b) = block_size (cipher self))"

text \<open>The integers of \<open>H\<close>, the encryption of the all-zero block, and of \<open>EK_nonce\<close>, the
  encryption of the nonce followed by the counter 0; and the tag for a header of integer
  \<open>A\<close>, ciphertext blocks \<open>cts\<close> and length element \<open>L\<close>:
  \<open>(accumulator XOR L) * H XOR EK_nonce\<close>, as one block of little-endian bytes.\<close>

definition hash_key :: "GCM \<Rightarrow> int" where
  "hash_key self =
     from_bytes_little (encrypt_block (cipher self) (le_bytes (block_size (cipher self)) 0))"

definition nonce_mask :: "GCM \<Rightarrow> int" where
  "nonce_mask self =
     from_bytes_little
       (encrypt_block (cipher self) (nonce self @ rev (le_bytes (length (nonce self)) 0)))"

definition gcm_tag :: "GCM \<Rightarrow> int list \<Rightarrow> int \<Rightarrow> bytes list \<Rightarrow> int \<Rightarrow> bytes" where
  "gcm_tag self p A cts L =
     le_bytes (block_size (cipher self))
       (gf_mult (num_bits self) p
          (ghash (num_bits self) p (hash_key self)
             (gf_mult (num_bits self) p A (hash_key self)) cts XOR L)
          (hash_key self)
        XOR nonce_mask self)"

text \<open>The length element as the specification words it (4.6, finalization):
  \<open>(header_length << (bitwidth / 2)) | block_count\<close>, with \<open>block_count\<close> the number of data
  blocks.\<close>

definition claimed_length_block :: "GCM \<Rightarrow> nat \<Rightarrow> int" where
  "claimed_length_block self block_count =
     push_bit (num_bits self div 2) (int (length (header self))) OR int block_count"

section \<open>Collaborators and sessions for the worked examples\<close>

text \<open>Concrete collaborators and sessions for the worked examples: a cipher that adds 1
  to every byte (and subtracts it again), a padding scheme, and sessions over them.\<close>

definition example_cipher :: "nat \<Rightarrow> Cipher" where
  "example_cipher n =
     \<lparr>block_size = n, encrypt_block = map (\<lambda>b. b + 1), decrypt_block = map (\<lambda>b. b - 1)\<rparr>"

definition example_padding :: PaddingScheme where
  "example_padding = \<lparr>apply_padding = (\<lambda>d. take 2 (d @ [0, 0])), remove = id\<rparr>"

definition example_ctr :: "nat \<Rightarrow> bytes \<Rightarrow> CTR" where
  "example_ctr n v = \<lparr>cipher = example_cipher n, nonce = v\<rparr>"

definition example_gcm :: "nat \<Rightarrow> bytes \<Rightarrow> bytes \<Rightarrow> GCM" where
  "example_gcm n v h = \<lparr>cipher = example_cipher n, nonce = v, header = h\<rparr>"

section \<open>Sequencing and generators\<close>

lemma bind_err_Inr [simp]: "bind_err (Inr v) f = f v"
  by (simp add: bind_err_def)

lemma bind_err_Inl [simp]: "bind_err (Inl e) f = Inl e"
  by (simp add: bind_err_def)

declare init_loop.simps [simp del]
declare str_nat.simps [simp del]

section \<open>Facts about bit lists\<close>

lemma length_bits_of [simp]: "length (bits_of n v) = n"
  by (induction n arbitrary: v) auto

lemma bit01_bits_of [simp]: "bit01 (bits_of n v)"
  by (induction n arbitrary: v) (auto simp: bit01_def)

lemma bits_value_Nil [simp]: "bits_value [] = 0"
  by (simp add: bits_value_def)

lemma bits_value_snoc [simp]: "bits_value (bs @ [b]) = 2 * bits_value bs + b"
  by (simp add: bits_value_def)

lemma bits_value_bits_of: "0 \<le> v \<Longrightarrow> bits_value (bits_of n v) = v mod 2 ^ n"
proof (induction n arbitrary: v)
  case 0
  then show ?case by simp
next
  case (Suc n)
  have "v mod (2 * 2 ^ n) = 2 * ((v div 2) mod 2 ^ n) + v mod 2"
    by (rule zmod_zmult2_eq) simp
  with Suc show ?case by simp
qed

lemma bits_of_bits_value: "bit01 bs \<Longrightarrow> bits_of (length bs) (bits_value bs) = bs"
proof (induction bs rule: rev_induct)
  case Nil
  then show ?case by simp
next
  case (snoc b bs)
  then have b: "b = 0 \<or> b = 1" and bs: "bit01 bs" by (auto simp: bit01_def)
  from b have "(2 * bits_value bs + b) div 2 = bits_value bs" "(2 * bits_value bs + b) mod 2 = b"
    by auto
  with snoc.IH bs show ?case by simp
qed

lemma bits_value_nonneg: "bit01 bs \<Longrightarrow> 0 \<le> bits_value bs"
  by (induction bs rule: rev_induct) (auto simp: bit01_def)

lemma bits_value_bound: "bit01 bs \<Longrightarrow> bits_value bs < 2 ^ length bs"
  by (induction bs rule: rev_induct) (auto simp: bit01_def)

lemma init_loop_bits_of:
  "k \<le> length bs \<Longrightarrow> take k bs = replicate k 0 \<Longrightarrow> 0 \<le> v \<Longrightarrow> v < 2 ^ k \<Longrightarrow>
   init_loop bs (int k - 1) v = Inr (bits_of k v @ drop k bs)"
proof (induction k arbitrary: bs v)
  case 0
  then show ?case by (simp add: init_loop.simps [of bs])
next
  case (Suc k)
  show ?case
  proof (cases "v > 0")
    case False
    with Suc.prems have v0: "v = 0" by simp
    have z: "bits_of n 0 = replicate n 0" for n
      by (induction n) (auto simp: replicate_append_same)
    have "bits_of (Suc k) 0 @ drop (Suc k) bs = take (Suc k) bs @ drop (Suc k) bs"
      unfolding Suc.prems(2) z ..
    then show ?thesis using v0 by (simp add: init_loop.simps [of bs])
  next
    case True
    let ?bs = "bs[k := v mod 2]"
    have 1: "k \<le> length ?bs" using Suc.prems by simp
    have "take k bs = take k (take (Suc k) bs)" by (simp add: min_def)
    also have "\<dots> = replicate k 0" unfolding Suc.prems(2) take_replicate by simp
    finally have 2: "take k ?bs = replicate k 0" by simp
    have 3: "0 \<le> v div 2" "v div 2 < 2 ^ k" using Suc.prems by auto
    have "init_loop bs (int (Suc k) - 1) v = init_loop ?bs (int k - 1) (v div 2)"
      using True by (simp add: init_loop.simps [of bs "int k"])
    also have "\<dots> = Inr (bits_of k (v div 2) @ drop k ?bs)"
      by (rule Suc.IH [OF 1 2 3])
    also have "drop k ?bs = (v mod 2) # drop (Suc k) bs"
      using Suc.prems(1) by (simp add: Cons_nth_drop_Suc [symmetric])
    finally show ?thesis by simp
  qed
qed

lemma init_loop_too_wide:
  "2 ^ k \<le> v \<Longrightarrow> init_loop bs (int k - 1) v = Inl (AssertionError ValueTooWide)"
proof (induction k arbitrary: bs v)
  case 0
  then show ?case by (simp add: init_loop.simps [of bs])
next
  case (Suc k)
  have pos: "(0::int) < 2 ^ k" by simp
  have le: "2 * 2 ^ k \<le> v" using Suc.prems by simp
  from pos le have "0 < v" by linarith
  moreover from le have "2 ^ k \<le> v div 2" by linarith
  ultimately show ?case
    using Suc.IH [of "v div 2" "bs[k := v mod 2]"]
    by (simp add: init_loop.simps [of bs "int k"])
qed

lemma str_int_bit: "b = 0 \<or> b = 1 \<Longrightarrow> str_int b = [if b = 1 then CHR ''1'' else CHR ''0'']"
  by (auto simp: str_int_def str_nat.simps [of 0] str_nat.simps [of "Suc 0"])

lemma concat_str_int:
  "bit01 bs \<Longrightarrow> concat (map str_int bs) = map (\<lambda>b. if b = 1 then CHR ''1'' else CHR ''0'') bs"
  by (induction bs) (auto simp: bit01_def str_int_bit)

lemma foldl_base2:
  "bit01 bs \<Longrightarrow>
   foldl (\<lambda>acc c. 2 * acc + (if c = CHR ''1'' then 1 else 0)) a
     (map (\<lambda>b. if b = 1 then CHR ''1'' else CHR ''0'') bs)
   = foldl (\<lambda>acc b. 2 * acc + b) a bs"
  by (induction bs arbitrary: a) (auto simp: bit01_def)

lemma base2_digits_bits:
  "bit01 bs \<Longrightarrow> bs \<noteq> [] \<Longrightarrow>
   base2_digits (map (\<lambda>b. if b = 1 then CHR ''1'' else CHR ''0'') bs) = Inr (bits_value bs)"
proof -
  assume b: "bit01 bs" and ne: "bs \<noteq> []"
  have "list_all (\<lambda>c. c = CHR ''0'' \<or> c = CHR ''1'')
          (map (\<lambda>b. if b = 1 then CHR ''1'' else CHR ''0'') bs)"
    by (induction bs) auto
  with b ne show ?thesis by (simp add: base2_digits_def foldl_base2 bits_value_def)
qed

lemma int_base2_bits:
  "bit01 bs \<Longrightarrow> bs \<noteq> [] \<Longrightarrow>
   int_base2 (map (\<lambda>b. if b = 1 then CHR ''1'' else CHR ''0'') bs) = Inr (bits_value bs)"
  using base2_digits_bits [of bs] by (cases bs) (auto simp: int_base2_def)

lemma intval_bits: "bit01 (bits g) \<Longrightarrow> bits g \<noteq> [] \<Longrightarrow> intval g = Inr (bits_value (bits g))"
  by (simp add: intval_def concat_str_int int_base2_bits)

lemma intval_empty: "bits g = [] \<Longrightarrow> intval g = Inl ValueError"
  by (simp add: intval_def int_base2_def)

lemma init_ok:
  assumes "p \<noteq> []" "py_max p = Inr (int n)" "0 \<le> v" "v < 2 ^ n"
  shows "GaloisPolynomial_init n v p = Inr (element n p v)"
proof -
  have "init_loop (replicate n 0) (int n - 1) v = Inr (bits_of n v @ drop n (replicate n 0))"
    by (rule init_loop_bits_of) (use assms in simp_all)
  then show ?thesis using assms by (simp add: GaloisPolynomial_init_def element_def)
qed

lemma init_too_wide:
  assumes "p \<noteq> []" "py_max p = Inr (int n)" "2 ^ n \<le> v"
  shows "GaloisPolynomial_init n v p = Inl (AssertionError ValueTooWide)"
proof -
  have "0 \<le> v" using assms(3) by (smt (verit) zero_le_power)
  then show ?thesis
    using assms by (simp add: GaloisPolynomial_init_def init_loop_too_wide)
qed

lemma supported_table:
  "n \<in> {8, 64, 128, 256, 512} \<Longrightarrow>
   \<exists>p. irreducible_polynomials n = Some p \<and> p \<noteq> [] \<and> py_max p = Inr (int n)"
  by (auto simp: irreducible_polynomials_def py_max_def)

lemma init_default:
  "irreducible_polynomials n = Some p \<Longrightarrow>
   GaloisPolynomial_init n v [] = GaloisPolynomial_init n v p"
  by (auto simp: GaloisPolynomial_init_def irreducible_polynomials_def split: if_splits)

lemma intval_element: "0 < n \<Longrightarrow> 0 \<le> v \<Longrightarrow> v < 2 ^ n \<Longrightarrow> intval (element n p v) = Inr v"
proof -
  assume n: "0 < n" and v: "0 \<le> v" "v < 2 ^ n"
  from n have "bits_of n v \<noteq> []" by (cases n) auto
  then have "intval (element n p v) = Inr (bits_value (bits_of n v))"
    by (simp add: intval_bits element_def)
  with v show ?thesis by (simp add: bits_value_bits_of)
qed

section \<open>The bit lists of the source and the integers of the specification\<close>

lemma nth_bits_of: "i < n \<Longrightarrow> bits_of n v ! i = of_bool (bit v (n - 1 - i))"
proof (induction n arbitrary: v i)
  case 0
  then show ?case by simp
next
  case (Suc n)
  show ?case
  proof (cases "i < n")
    case True
    then have "Suc n - 1 - i = Suc (n - 1 - i)" by simp
    with True Suc.IH [of i "v div 2"] show ?thesis
      by (simp add: nth_append bit_Suc)
  next
    case False
    with Suc.prems have "i = n" by simp
    then show ?thesis by (simp add: nth_append bit_0 mod_2_eq_odd)
  qed
qed

lemma bits_of_eqI:
  "length bs = n \<Longrightarrow> (\<And>i. i < n \<Longrightarrow> bs ! i = of_bool (bit v (n - 1 - i))) \<Longrightarrow> bs = bits_of n v"
  by (rule nth_equalityI) (simp_all add: nth_bits_of)

lemma no_high_bit: "0 \<le> v \<Longrightarrow> v < 2 ^ n \<Longrightarrow> n \<le> j \<Longrightarrow> \<not> bit (v::int) j"
proof -
  assume "0 \<le> v" "v < 2 ^ n" "n \<le> j"
  then have "take_bit n v = v" by (simp add: take_bit_int_eq_self)
  then have "bit v j = bit (take_bit n v) j" by simp
  also have "\<dots> = False" using \<open>n \<le> j\<close> by (simp add: bit_take_bit_iff)
  finally show ?thesis by simp
qed

lemma below_power_iff_no_high_bit:
  "(0 \<le> v \<and> v < 2 ^ n) \<longleftrightarrow> (\<forall>j\<ge>n. \<not> bit (v::int) j)"
proof
  assume "0 \<le> v \<and> v < 2 ^ n"
  then show "\<forall>j\<ge>n. \<not> bit v j" using no_high_bit by blast
next
  assume h: "\<forall>j\<ge>n. \<not> bit v j"
  have "take_bit n v = v"
  proof (rule bit_eqI)
    fix m
    from h have "bit v m \<Longrightarrow> m < n" by (meson not_le)
    then show "bit (take_bit n v) m = bit v m" by (auto simp: bit_take_bit_iff)
  qed
  then show "0 \<le> v \<and> v < 2 ^ n" by (simp add: take_bit_int_eq_self_iff)
qed

lemma bits_of_zero: "bits_of n 0 = replicate n 0"
  by (induction n) (auto simp: replicate_append_same)

lemma bits_of_xor:
  "map (\<lambda>i. bits_of n a ! i XOR bits_of n b ! i) [0..<n] = bits_of n (a XOR b)"
  by (rule bits_of_eqI) (auto simp: nth_bits_of bit_xor_iff)

lemma bits_of_shifted:
  assumes "0 \<le> a" "a < 2 ^ n"
  shows "replicate k 0 @ bits_of n a @ replicate s 0 = bits_of (k + n + s) (push_bit s a)"
proof (rule bits_of_eqI)
  show "length (replicate k 0 @ bits_of n a @ replicate s 0) = k + n + s" by simp
next
  fix i assume i: "i < k + n + s"
  consider "i < k" | "k \<le> i" "i < k + n" | "k + n \<le> i" by linarith
  then show "(replicate k 0 @ bits_of n a @ replicate s 0) ! i =
             of_bool (bit (push_bit s a) (k + n + s - 1 - i))"
  proof cases
    case 1
    then have "n \<le> k + n + s - 1 - i - s" by simp
    then have "\<not> bit a (k + n + s - 1 - i - s)" using assms no_high_bit by blast
    with 1 show ?thesis by (simp add: nth_append bit_push_bit_iff)
  next
    case 2
    then have e: "k + n + s - 1 - i - s = n - 1 - (i - k)" "s \<le> k + n + s - 1 - i"
      and lt: "i - k < n" by auto
    have "(replicate k 0 @ bits_of n a @ replicate s 0) ! i = bits_of n a ! (i - k)"
      using 2 lt by (simp add: nth_append)
    also have "\<dots> = of_bool (bit a (n - 1 - (i - k)))" using lt by (rule nth_bits_of)
    also have "\<dots> = of_bool (bit (push_bit s a) (k + n + s - 1 - i))"
      unfolding bit_push_bit_iff using e by simp
    finally show ?thesis .
  next
    case 3
    with i have ns: "\<not> s \<le> k + n + s - 1 - i" by auto
    from 3 have ge: "\<not> i < k" "\<not> i - k < n" "i - k - n < s" using i by auto
    have "(replicate k 0 @ bits_of n a @ replicate s 0) ! i = replicate s (0::int) ! (i - k - n)"
      using ge by (simp add: nth_append)
    also have "\<dots> = 0" using ge by simp
    finally show ?thesis using ns by (simp add: bit_push_bit_iff)
  qed
qed

lemma take_bits_of_zero:
  "0 \<le> v \<Longrightarrow> v < 2 ^ n \<Longrightarrow> take k (bits_of (k + n) v) = replicate k 0"
proof -
  assume "0 \<le> v" "v < 2 ^ n"
  then have "replicate k 0 @ bits_of n v = bits_of (k + n) v"
    using bits_of_shifted [of v n k 0] by simp
  then have "take k (bits_of (k + n) v) = take k (replicate k 0 @ bits_of n v)" by simp
  then show ?thesis by simp
qed

lemma drop_bits_of: "drop k (bits_of (k + n) v) = bits_of n v"
  by (induction n arbitrary: v) auto

lemma xor_sum_Nil [simp]: "xor_sum [] = 0"
  by (simp add: xor_sum_def)

lemma xor_sum_Cons [simp]: "xor_sum (v # vs) = v XOR xor_sum vs"
  by (simp add: xor_sum_def)

lemma shift_loop_valid:
  "length (bits other) = length_gp self \<Longrightarrow> \<forall>s\<in>set ss. s < length_gp self \<Longrightarrow>
   shift_loop self other ss acc =
     Inr (acc @ map (\<lambda>s. replicate (length_gp self - s) 0 @ bits self @ replicate s 0)
                  (filter (\<lambda>s. bits other ! (length_gp self - 1 - s) = 1) ss))"
proof (induction ss arbitrary: acc)
  case Nil
  then show ?case by simp
next
  case (Cons s ss)
  then have "length_gp self - 1 - s < length (bits other)" by auto
  with Cons show ?case by (simp add: Let_def)
qed

lemma shifted_element:
  assumes "0 \<le> a" "a < 2 ^ n" "s < n"
  shows "replicate (n - s) 0 @ bits_of n a @ replicate s 0 = bits_of (2 * n) (push_bit s a)"
proof -
  have "n - s + n + s = 2 * n" using assms(3) by simp
  with bits_of_shifted [OF assms(1,2), of "n - s" s] show ?thesis by (simp add: mult_2)
qed

lemma selected_bit: "s < n \<Longrightarrow> bits_of n b ! (n - Suc s) = 1 \<longleftrightarrow> bit b s"
  by (simp add: nth_bits_of)

lemma shift_loop_element:
  assumes "0 \<le> a" "a < 2 ^ n"
  shows "shift_loop (element n p a) (element n q b) [0..<n] [] =
         Inr (map (\<lambda>s. bits_of (2 * n) (push_bit s a)) (filter (bit b) [0..<n]))"
proof -
  have "shift_loop (element n p a) (element n q b) [0..<n] [] =
        Inr ([] @ map (\<lambda>s. replicate (n - s) 0 @ bits_of n a @ replicate s 0)
                    (filter (\<lambda>s. bits_of n b ! (n - 1 - s) = 1) [0..<n]))"
    using shift_loop_valid [of "element n q b" "element n p a" "[0..<n]" "[]"]
    by (simp add: element_def)
  also have "filter (\<lambda>s. bits_of n b ! (n - 1 - s) = 1) [0..<n] = filter (bit b) [0..<n]"
    by (rule filter_cong) (simp_all add: selected_bit)
  also have "map (\<lambda>s. replicate (n - s) 0 @ bits_of n a @ replicate s 0) (filter (bit b) [0..<n])
           = map (\<lambda>s. bits_of (2 * n) (push_bit s a)) (filter (bit b) [0..<n])"
    by (rule map_cong) (simp_all add: shifted_element [OF assms])
  finally show ?thesis by simp
qed

lemma parity_sum:
  "sum_list (map (\<lambda>v. of_bool (bit v k)) vs) mod 2 = (of_bool (bit (xor_sum vs) k) :: int)"
proof (induction vs)
  case Nil
  then show ?case by simp
next
  case (Cons v vs)
  have "(of_bool (bit v k) + sum_list (map (\<lambda>v. of_bool (bit v k)) vs)) mod 2
        = (of_bool (bit v k) + sum_list (map (\<lambda>v. of_bool (bit v k)) vs) mod 2) mod (2::int)"
    by (simp add: mod_add_right_eq)
  also have "\<dots> = (of_bool (bit v k) + of_bool (bit (xor_sum vs) k)) mod (2::int)"
    unfolding Cons.IH ..
  also have "\<dots> = of_bool (bit (v XOR xor_sum vs) k)"
    by (simp add: bit_xor_iff)
  finally show ?case by simp
qed

lemma column_sums_bits_of:
  "column_sums (map (bits_of m) vs) m = bits_of m (xor_sum vs)"
proof (rule bits_of_eqI)
  show "length (column_sums (map (bits_of m) vs) m) = m" by (simp add: column_sums_def)
next
  fix i assume i: "i < m"
  have "column_sums (map (bits_of m) vs) m ! i
        = sum_list (map (\<lambda>sv. sv ! i) (map (bits_of m) vs)) mod 2"
    using i by (simp add: column_sums_def)
  also have "map (\<lambda>sv. sv ! i) (map (bits_of m) vs)
           = map (\<lambda>v. of_bool (bit v (m - 1 - i))) vs"
    using i by (simp add: nth_bits_of)
  also have "sum_list (map (\<lambda>v. of_bool (bit v (m - 1 - i))) vs) mod 2
           = (of_bool (bit (xor_sum vs) (m - 1 - i)) :: int)"
    by (rule parity_sum)
  finally show "column_sums (map (bits_of m) vs) m ! i = of_bool (bit (xor_sum vs) (m - 1 - i))" .
qed

lemma carryless_product_shifts:
  "0 \<le> b \<Longrightarrow> b < 2 ^ n \<Longrightarrow>
   xor_sum (map (\<lambda>s. push_bit s a) (filter (bit b) [0..<n])) = carryless_product a b"
proof (induction n arbitrary: a b)
  case 0
  then have "b = 0" by simp
  then show ?case by (simp add: carryless_product.simps [of a])
next
  case (Suc n)
  have "[0..<Suc n] = 0 # [Suc 0..<Suc n]" by (rule upt_conv_Cons) simp
  also have "[Suc 0..<Suc n] = map Suc [0..<n]" by (rule map_Suc_upt [symmetric])
  finally have up: "[0..<Suc n] = 0 # map Suc [0..<n]" .
  have f: "filter (bit b) (map Suc [0..<n]) = map Suc (filter (bit (b div 2)) [0..<n])"
    by (simp add: filter_map comp_def bit_Suc)
  have m: "map (\<lambda>s. push_bit s a) (map Suc (filter (bit (b div 2)) [0..<n]))
         = map (\<lambda>s. push_bit s (2 * a)) (filter (bit (b div 2)) [0..<n])"
    by (simp add: comp_def mult.commute [of a 2])
  have ih: "xor_sum (map (\<lambda>s. push_bit s (2 * a)) (filter (bit (b div 2)) [0..<n]))
            = carryless_product (2 * a) (b div 2)"
    by (rule Suc.IH) (use Suc.prems in auto)
  show ?case
  proof (cases "b = 0")
    case True
    have "filter (bit (0::int)) [0..<Suc n] = []" by (simp del: upt_Suc)
    with True show ?thesis by (simp add: carryless_product.simps [of a] del: upt_Suc)
  next
    case False
    with Suc.prems have nz: "\<not> b \<le> 0" by simp
    let ?f = "\<lambda>s. push_bit s a"
    have "xor_sum (map ?f (filter (bit b) (0 # map Suc [0..<n])))
          = (if odd b then a else 0) XOR xor_sum (map ?f (filter (bit b) (map Suc [0..<n])))"
      by (simp add: bit_0)
    also have "map ?f (filter (bit b) (map Suc [0..<n]))
             = map (\<lambda>s. push_bit s (2 * a)) (filter (bit (b div 2)) [0..<n])"
      unfolding f m ..
    also have "xor_sum \<dots> = carryless_product (2 * a) (b div 2)" by (rule ih)
    also have "(if odd b then a else 0) XOR carryless_product (2 * a) (b div 2)
             = carryless_product a b"
      using nz by (simp add: carryless_product.simps [of a b])
    finally show ?thesis unfolding up .
  qed
qed

lemma py_max_Max: "py_max p = Inr m \<Longrightarrow> p \<noteq> [] \<and> m = Max (set p)"
  by (cases p) (auto simp: py_max_def Max.set_eq_fold [symmetric])

lemma py_max_bounds:
  assumes "py_max p = Inr m"
  shows "m \<in> set p" and "\<And>e. e \<in> set p \<Longrightarrow> e \<le> m"
proof -
  from assms have p: "p \<noteq> []" "m = Max (set p)" using py_max_Max by blast+
  then show "m \<in> set p" using Max_in [of "set p"] by simp
  fix e assume "e \<in> set p"
  then show "e \<le> m" using p by simp
qed

lemma py_set_bits_of:
  assumes "0 \<le> e" "e \<le> int n"
  shows "py_set (bits_of (Suc n) Q) (int (Suc n) - 1 - e) 1
         = Inr (bits_of (Suc n) (set_bit (nat e) Q))"
proof -
  have pos: "nat (int n - e) = n - nat e" "n - nat e < Suc n" "nat e \<le> n" using assms by auto
  have "(bits_of (Suc n) Q)[n - nat e := 1] = bits_of (Suc n) (set_bit (nat e) Q)"
  proof (rule bits_of_eqI)
    show "length ((bits_of (Suc n) Q)[n - nat e := 1]) = Suc n" by simp
  next
    fix i assume i: "i < Suc n"
    have eq: "i = n - nat e \<longleftrightarrow> Suc n - 1 - i = nat e" using i pos(3) by auto
    show "(bits_of (Suc n) Q)[n - nat e := 1] ! i
          = of_bool (bit (set_bit (nat e) Q) (Suc n - 1 - i))"
    proof (cases "i = n - nat e")
      case True
      with eq have "Suc n - 1 - i = nat e" by simp
      with True i show ?thesis by (simp add: bit_set_bit_iff)
    next
      case False
      with eq have ne: "Suc n - 1 - i \<noteq> nat e" by simp
      have "(bits_of (Suc n) Q)[n - nat e := 1] ! i = bits_of (Suc n) Q ! i"
        using False by simp
      also have "\<dots> = of_bool (bit Q (Suc n - 1 - i))" using i by (rule nth_bits_of)
      also have "\<dots> = of_bool (bit (set_bit (nat e) Q) (Suc n - 1 - i))"
        using ne by (simp add: bit_set_bit_iff)
      finally show ?thesis .
    qed
  qed
  then show ?thesis using assms pos by (simp add: py_set_def)
qed

lemma set_exponents_bits_of:
  "\<forall>e\<in>set es. 0 \<le> e \<and> e \<le> int n \<Longrightarrow>
   set_exponents es (Suc n) (bits_of (Suc n) Q)
     = Inr (bits_of (Suc n) (fold (\<lambda>e. set_bit (nat e)) es Q))"
proof (induction es arbitrary: Q)
  case Nil
  then show ?case by simp
next
  case (Cons e es)
  then have "py_set (bits_of (Suc n) Q) (int (Suc n) - 1 - e) 1
             = Inr (bits_of (Suc n) (set_bit (nat e) Q))"
    by (intro py_set_bits_of) auto
  with Cons show ?case by simp
qed

lemma bit_fold_set_bit:
  "bit (fold (\<lambda>e. set_bit (nat e)) es (Q::int)) k \<longleftrightarrow> bit Q k \<or> k \<in> nat ` set es"
  by (induction es arbitrary: Q) (auto simp: bit_set_bit_iff)

lemma poly_of_exponents_bits:
  "bit (poly_of_exponents es) k \<longleftrightarrow> k \<in> nat ` set es"
  by (simp add: poly_of_exponents_def bit_fold_set_bit)

lemma poly_of_exponents_degree:
  assumes "py_max p = Inr (int n)"
  shows "bit (poly_of_exponents p) n"
    and "0 \<le> poly_of_exponents p \<and> poly_of_exponents p < 2 ^ Suc n"
proof -
  from py_max_bounds [OF assms] have top: "int n \<in> set p" and le: "\<And>e. e \<in> set p \<Longrightarrow> e \<le> int n"
    by blast+
  from top have "n \<in> nat ` set p" by force
  then show "bit (poly_of_exponents p) n" by (simp add: poly_of_exponents_bits)
  have "\<forall>j\<ge>Suc n. \<not> bit (poly_of_exponents p) j"
  proof (intro allI impI notI)
    fix j assume j: "Suc n \<le> j" and "bit (poly_of_exponents p) j"
    then obtain e where "e \<in> set p" "j = nat e" by (auto simp: poly_of_exponents_bits)
    with le [of e] j show False by auto
  qed
  then show "0 \<le> poly_of_exponents p \<and> poly_of_exponents p < 2 ^ Suc n"
    by (simp only: below_power_iff_no_high_bit)
qed

lemma reduce_loop_bits_of:
  assumes P: "0 \<le> P" "P < 2 ^ Suc n"
  shows "k \<le> n \<Longrightarrow>
         reduce_loop (bits_of (Suc n) P) (2 * n) (Suc n) [n - k..<n] (bits_of (2 * n) V)
           = Inr (bits_of (2 * n) (poly_reduce n P k V))"
proof (induction k arbitrary: V)
  case 0
  then show ?case by simp
next
  case (Suc k)
  let ?i = "n - Suc k"
  have up: "[?i..<n] = ?i # [n - k..<n]"
    using Suc.prems by (simp add: upt_conv_Cons Suc_diff_Suc)
  have i: "?i < 2 * n" "2 * n - 1 - ?i = n + k" "2 * n - Suc n - ?i = k" "?i + Suc n + k = 2 * n"
    using Suc.prems by auto
  have test: "bits_of (2 * n) V ! ?i = 1 \<longleftrightarrow> bit V (n + k)"
    using i(1,2) by (simp add: nth_bits_of)
  have sh: "replicate ?i 0 @ bits_of (Suc n) P @ replicate (2 * n - Suc n - ?i) 0
            = bits_of (2 * n) (push_bit k P)"
    by (simp only: i(3) i(4) bits_of_shifted [OF P])
  have ih: "reduce_loop (bits_of (Suc n) P) (2 * n) (Suc n) [n - k..<n] (bits_of (2 * n) W)
            = Inr (bits_of (2 * n) (poly_reduce n P k W))" for W
    using Suc.IH [of W] Suc.prems by simp
  show ?case
    unfolding up
    by (simp only: reduce_loop.simps test sh Let_def length_bits_of bits_of_xor ih
          poly_reduce.simps refl if_False split: if_split) simp
qed

lemma poly_reduce_below:
  assumes "bit P n" "0 \<le> P" "P < 2 ^ Suc n"
  shows "0 \<le> V \<and> V < 2 ^ (n + k) \<Longrightarrow>
         0 \<le> poly_reduce n P k V \<and> poly_reduce n P k V < 2 ^ n"
proof (induction k arbitrary: V)
  case 0
  then show ?case by simp
next
  case (Suc k)
  let ?W = "if bit V (n + k) then V XOR push_bit k P else V"
  from Suc.prems have V: "\<forall>j\<ge>n + Suc k. \<not> bit V j"
    by (simp only: below_power_iff_no_high_bit)
  from assms(2,3) have Pn: "\<forall>j\<ge>Suc n. \<not> bit P j"
    using below_power_iff_no_high_bit [of P "Suc n"] by simp
  have "\<forall>j\<ge>n + k. \<not> bit ?W j"
  proof (intro allI impI)
    fix j assume j: "n + k \<le> j"
    show "\<not> bit ?W j"
    proof (cases "j = n + k")
      case True
      with assms(1) show ?thesis by (simp add: bit_xor_iff bit_push_bit_iff)
    next
      case False
      with j have "n + Suc k \<le> j" "Suc n \<le> j - k" by auto
      with V Pn show ?thesis by (simp add: bit_xor_iff bit_push_bit_iff)
    qed
  qed
  then have "0 \<le> ?W \<and> ?W < 2 ^ (n + k)" by (simp only: below_power_iff_no_high_bit)
  from Suc.IH [OF this] show ?case by simp
qed

lemma xor_sum_below:
  "\<forall>v\<in>set vs. \<forall>j\<ge>m. \<not> bit v j \<Longrightarrow> \<forall>j\<ge>m. \<not> bit (xor_sum vs) j"
  by (induction vs) (auto simp: bit_xor_iff)

lemma carryless_product_below:
  assumes "0 \<le> a" "a < 2 ^ n" "0 \<le> b" "b < 2 ^ n"
  shows "0 \<le> carryless_product a b \<and> carryless_product a b < 2 ^ (n + n)"
proof -
  have a: "\<forall>j\<ge>n. \<not> bit a j" using assms(1,2) below_power_iff_no_high_bit [of a n] by simp
  have "\<forall>v\<in>set (map (\<lambda>s. push_bit s a) (filter (bit b) [0..<n])). \<forall>j\<ge>n + n. \<not> bit v j"
  proof (intro ballI allI impI)
    fix v j
    assume "v \<in> set (map (\<lambda>s. push_bit s a) (filter (bit b) [0..<n]))" and j: "n + n \<le> j"
    then obtain s where s: "s < n" "v = push_bit s a" by auto
    with j have "n \<le> j - s" by simp
    with a s show "\<not> bit v j" by (simp add: bit_push_bit_iff)
  qed
  then have "\<forall>j\<ge>n + n. \<not> bit (xor_sum (map (\<lambda>s. push_bit s a) (filter (bit b) [0..<n]))) j"
    by (rule xor_sum_below)
  then show ?thesis
    unfolding carryless_product_shifts [OF assms(3,4)]
    by (simp only: below_power_iff_no_high_bit)
qed

lemma init_zero: "py_max p = Inr (int n) \<Longrightarrow> GaloisPolynomial_init n 0 p = Inr (element n p 0)"
  using init_ok [of p n 0] py_max_Max [of p "int n"] by simp

lemma mult_reduced_element:
  assumes p: "py_max p = Inr (int n)" "\<forall>e\<in>set p. 0 \<le> e"
      and a: "0 \<le> a" "a < 2 ^ n" and b: "0 \<le> b" "b < 2 ^ n"
  shows "mult_reduced (element n p a) (element n q b) = Inr (bits_of (2 * n) (gf_mult n p a b))"
proof -
  let ?L = "filter (bit b) [0..<n]"
  let ?P = "poly_of_exponents p"
  have sl: "shift_loop (element n p a) (element n q b) [0..<length_gp (element n p a)] []
            = Inr (map (bits_of (2 * n)) (map (\<lambda>s. push_bit s a) ?L))"
    using shift_loop_element [OF a, of p q b] by (simp add: element_def comp_def)
  have all: "list_all (\<lambda>sv. length sv = n * 2) (map (bits_of (2 * n)) (map (\<lambda>s. push_bit s a) ?L))"
    by (simp add: list_all_iff)
  have cs: "column_sums (map (bits_of (2 * n)) (map (\<lambda>s. push_bit s a) ?L)) (n * 2)
            = bits_of (2 * n) (carryless_product a b)"
    using column_sums_bits_of [of "2 * n" "map (\<lambda>s. push_bit s a) ?L"]
    by (simp add: carryless_product_shifts [OF b] mult.commute)
  have "\<forall>e\<in>set p. 0 \<le> e \<and> e \<le> int n" using p py_max_bounds(2) [OF p(1)] by blast
  then have "set_exponents p (Suc n) (bits_of (Suc n) 0) = Inr (bits_of (Suc n) ?P)"
    unfolding poly_of_exponents_def by (rule set_exponents_bits_of)
  then have se: "set_exponents p (n + 1) (replicate (n + 1) 0) = Inr (bits_of (Suc n) ?P)"
    by (simp only: bits_of_zero Suc_eq_plus1)
  have P: "0 \<le> ?P" "?P < 2 ^ Suc n" using poly_of_exponents_degree(2) [OF p(1)] by blast+
  have rl: "reduce_loop (bits_of (Suc n) ?P) (n * 2) (n + 1) [0..<n * 2 - n]
              (bits_of (2 * n) (carryless_product a b))
            = Inr (bits_of (2 * n) (poly_reduce n ?P n (carryless_product a b)))"
    using reduce_loop_bits_of [OF P, of n "carryless_product a b"]
    by (simp add: mult.commute)
  show ?thesis
    unfolding mult_reduced_def Let_def sl
    by (simp only: bind_err_Inr all cs se rl gf_mult_def element_def
          GaloisPolynomial.simps refl if_True if_False not_True_eq_False)
qed

lemma gf_mult_below:
  assumes "py_max p = Inr (int n)" "0 \<le> a" "a < 2 ^ n" "0 \<le> b" "b < 2 ^ n"
  shows "0 \<le> gf_mult n p a b \<and> gf_mult n p a b < 2 ^ n"
  unfolding gf_mult_def
  using poly_reduce_below [OF poly_of_exponents_degree(1) [OF assms(1)],
          where k = n and V = "carryless_product a b"]
        poly_of_exponents_degree(2) [OF assms(1)]
        carryless_product_below [OF assms(2-5)]
  by blast

lemma mult_element:
  assumes p: "py_max p = Inr (int n)" "\<forall>e\<in>set p. 0 \<le> e"
      and a: "0 \<le> a" "a < 2 ^ n" and b: "0 \<le> b" "b < 2 ^ n"
  shows "mult (element n p a) (element n q b) = Inr (element n p (gf_mult n p a b))"
proof -
  let ?g = "gf_mult n p a b"
  have g: "0 \<le> ?g" "?g < 2 ^ n" using gf_mult_below [OF p(1) a b] by blast+
  have tk: "take n (bits_of (2 * n) ?g) = replicate n 0"
    using take_bits_of_zero [OF g, of n] by (simp add: mult_2)
  have dr: "drop n (bits_of (2 * n) ?g) = bits_of n ?g"
    using drop_bits_of [of n n ?g] by (simp add: mult_2)
  have lg: "length_gp (element n p a) = n" "irr_pol (element n p a) = p"
    by (simp_all add: element_def)
  show ?thesis
    unfolding mult_def Let_def mult_reduced_element [OF p a b] lg
    by (simp add: tk dr init_zero [OF p(1)]) (simp add: element_def)
qed

lemma xor_element:
  assumes p: "py_max p = Inr (int n)"
  shows "xor_gp (element n p a) (element n q b) = Inr (element n p (a XOR b))"
proof -
  have lg: "length_gp (element n p a) = n" "irr_pol (element n p a) = p"
    "length_gp (element n q b) = n" "bits (element n p a) = bits_of n a"
    "bits (element n q b) = bits_of n b"
    by (simp_all add: element_def)
  show ?thesis
    unfolding xor_gp_def lg
    by (simp add: init_zero [OF p] bits_of_xor) (simp add: element_def)
qed

lemma valid_gp_element:
  assumes "valid_gp g"
  shows "g = element (length_gp g) (irr_pol g) (bits_value (bits g))"
    and "0 \<le> bits_value (bits g)" and "bits_value (bits g) < 2 ^ length_gp g"
    and "py_max (irr_pol g) = Inr (int (length_gp g))"
proof -
  from assms have l: "length (bits g) = length_gp g" and b: "bit01 (bits g)"
    and m: "py_max (irr_pol g) = Inr (int (length_gp g))"
    by (simp_all add: valid_gp_def)
  from bits_of_bits_value [OF b] l show "g = element (length_gp g) (irr_pol g) (bits_value (bits g))"
    by (simp add: element_def)
  show "0 \<le> bits_value (bits g)" using b by (rule bits_value_nonneg)
  show "bits_value (bits g) < 2 ^ length_gp g" using bits_value_bound [OF b] l by simp
  show "py_max (irr_pol g) = Inr (int (length_gp g))" by (rule m)
qed

lemma element_valid: "py_max p = Inr (int n) \<Longrightarrow> valid_gp (element n p v)"
  by (simp add: valid_gp_def element_def)

lemma set_exponents_length:
  "set_exponents es m l = Inr l' \<Longrightarrow> length l' = length l"
proof (induction es arbitrary: l)
  case Nil
  then show ?case by simp
next
  case (Cons e es)
  then show ?case
    by (auto simp: py_set_def Let_def bind_err_def split: if_splits sum.splits)
qed

lemma set_exponents_negative:
  "length l = Suc n \<Longrightarrow> \<forall>e\<in>set es. e \<le> int n \<Longrightarrow> \<exists>e\<in>set es. e < 0 \<Longrightarrow>
   set_exponents es (Suc n) l = Inl IndexError"
proof (induction es arbitrary: l)
  case Nil
  then show ?case by simp
next
  case (Cons e es)
  show ?case
  proof (cases "e < 0")
    case True
    with Cons.prems(1) have "py_set l (int (Suc n) - 1 - e) 1 = Inl IndexError"
      by (simp add: py_set_def)
    then show ?thesis by simp
  next
    case False
    with Cons.prems have e: "0 \<le> e" "e \<le> int n" and rest: "\<exists>e\<in>set es. e < 0"
      "\<forall>e\<in>set es. e \<le> int n" by auto
    from e Cons.prems(1) have "py_set l (int (Suc n) - 1 - e) 1 = Inr (l[nat (int n - e) := 1])"
      by (simp add: py_set_def)
    moreover have "set_exponents es (Suc n) (l[nat (int n - e) := 1]) = Inl IndexError"
      by (rule Cons.IH) (use Cons.prems(1) rest in simp_all)
    ultimately show ?thesis by simp
  qed
qed

lemma mult_reduced_steps:
  assumes a: "0 \<le> a" "a < 2 ^ n" and b: "0 \<le> b" "b < 2 ^ n"
  shows "mult_reduced (element n p a) (element n q b) =
         bind_err (set_exponents p (Suc n) (replicate (Suc n) 0)) (\<lambda>irr_pol_list.
           reduce_loop irr_pol_list (n * 2) (Suc n) [0..<n]
             (bits_of (2 * n) (carryless_product a b)))"
proof -
  let ?L = "filter (bit b) [0..<n]"
  have sl: "shift_loop (element n p a) (element n q b) [0..<length_gp (element n p a)] []
            = Inr (map (bits_of (2 * n)) (map (\<lambda>s. push_bit s a) ?L))"
    using shift_loop_element [OF a, of p q b] by (simp add: element_def comp_def)
  have all: "list_all (\<lambda>sv. length sv = n * 2) (map (bits_of (2 * n)) (map (\<lambda>s. push_bit s a) ?L))"
    by (simp add: list_all_iff)
  have cs: "column_sums (map (bits_of (2 * n)) (map (\<lambda>s. push_bit s a) ?L)) (n * 2)
            = bits_of (2 * n) (carryless_product a b)"
    using column_sums_bits_of [of "2 * n" "map (\<lambda>s. push_bit s a) ?L"]
    by (simp add: carryless_product_shifts [OF b] mult.commute)
  have lg: "length_gp (element n p a) = n" "irr_pol (element n p a) = p"
    "length_gp (element n q b) = n"
    by (simp_all add: element_def)
  have sub: "n * 2 - n = n" by simp
  show ?thesis
    unfolding mult_reduced_def Let_def sl
    by (simp only: bind_err_Inr all cs lg sub Suc_eq_plus1 refl if_True if_False
          not_True_eq_False)
qed

lemma mult_negative_exponent:
  assumes p: "py_max p = Inr (int n)" "\<exists>e\<in>set p. e < 0"
      and a: "0 \<le> a" "a < 2 ^ n" and b: "0 \<le> b" "b < 2 ^ n"
  shows "mult (element n p a) (element n q b) = Inl IndexError"
proof -
  have "set_exponents p (Suc n) (replicate (Suc n) 0) = Inl IndexError"
    by (rule set_exponents_negative) (use p py_max_bounds(2) [OF p(1)] in auto)
  then show ?thesis
    unfolding mult_def mult_reduced_steps [OF a b] by simp
qed

lemma init_Inr:
  assumes "GaloisPolynomial_init n v p = Inr g"
  shows "\<exists>p'. g = element n p' v \<and> py_max p' = Inr (int n) \<and> 0 \<le> v \<and> v < 2 ^ n"
proof -
  from assms obtain p' where p': "py_max p' = Inr (int n)" "0 \<le> v"
    and l: "bind_err (init_loop (replicate n 0) (int n - 1) v)
              (\<lambda>bs. Inr \<lparr>irr_pol = p', length_gp = n, bits = bs\<rparr>) = Inr g"
    by (auto simp: GaloisPolynomial_init_def bind_err_def
          split: if_splits sum.splits option.splits)
  have lt: "v < 2 ^ n"
  proof (rule ccontr)
    assume "\<not> v < 2 ^ n"
    then have "init_loop (replicate n 0) (int n - 1) v = Inl (AssertionError ValueTooWide)"
      by (intro init_loop_too_wide) simp
    with l show False by simp
  qed
  have "init_loop (replicate n 0) (int n - 1) v = Inr (bits_of n v @ drop n (replicate n 0))"
    by (rule init_loop_bits_of) (use p' lt in simp_all)
  with l have "g = element n p' v" by (simp add: element_def)
  with p' lt show ?thesis by blast
qed

lemma mult_valid:
  assumes "valid_gp a" "valid_gp b" "length_gp a = length_gp b"
  shows "mult a b = Inl IndexError \<and> (\<exists>e\<in>set (irr_pol a). e < 0) \<or>
         mult a b = Inr (element (length_gp a) (irr_pol a)
                      (gf_mult (length_gp a) (irr_pol a) (bits_value (bits a)) (bits_value (bits b))))
         \<and> (\<forall>e\<in>set (irr_pol a). 0 \<le> e)"
proof -
  let ?n = "length_gp a"
  note A = valid_gp_element [OF assms(1)]
  note B = valid_gp_element [OF assms(2), folded assms(3)]
  show ?thesis
  proof (cases "\<exists>e\<in>set (irr_pol a). e < 0")
    case True
    have "mult (element ?n (irr_pol a) (bits_value (bits a)))
               (element ?n (irr_pol b) (bits_value (bits b))) = Inl IndexError"
      by (rule mult_negative_exponent [OF A(4) True A(2,3) B(2,3)])
    with True show ?thesis using A(1) B(1) by simp
  next
    case False
    then have nn: "\<forall>e\<in>set (irr_pol a). 0 \<le> e" by auto
    have "mult (element ?n (irr_pol a) (bits_value (bits a)))
               (element ?n (irr_pol b) (bits_value (bits b)))
          = Inr (element ?n (irr_pol a)
                  (gf_mult ?n (irr_pol a) (bits_value (bits a)) (bits_value (bits b))))"
      by (rule mult_element [OF A(4) nn A(2,3) B(2,3)])
    with nn show ?thesis using A(1) B(1) by simp
  qed
qed

lemma xor_valid:
  assumes "valid_gp a" "valid_gp b" "length_gp a = length_gp b"
  shows "xor_gp a b = Inr (element (length_gp a) (irr_pol a)
                            (bits_value (bits a) XOR bits_value (bits b)))"
proof -
  note A = valid_gp_element [OF assms(1)]
  note B = valid_gp_element [OF assms(2), folded assms(3)]
  have "xor_gp (element (length_gp a) (irr_pol a) (bits_value (bits a)))
              (element (length_gp a) (irr_pol b) (bits_value (bits b)))
        = Inr (element (length_gp a) (irr_pol a) (bits_value (bits a) XOR bits_value (bits b)))"
    by (rule xor_element [OF A(4)])
  then show ?thesis using A(1) B(1) by simp
qed

lemma width_mismatch:
  "length_gp a \<noteq> length_gp b \<Longrightarrow> xor_gp a b = Inl (AssertionError WidthMismatch)"
  "length_gp a \<noteq> length_gp b \<Longrightarrow> mult a b = Inl (AssertionError WidthMismatch)"
  by (simp_all add: xor_gp_def mult_def mult_reduced_def)

lemma valid_aes_element: "valid_gp (element 8 [8, 4, 3, 1, 0] v)"
  by (rule element_valid) (simp add: py_max_def)

lemma element_sel [simp]:
  "length_gp (element n p v) = n" "irr_pol (element n p v) = p" "bits (element n p v) = bits_of n v"
  by (simp_all add: element_def)

lemma table_polynomial:
  assumes "irreducible_polynomials n = Some p"
  shows "n \<in> {8, 64, 128, 256, 512}" and "py_max p = Inr (int n)" and "\<forall>e\<in>set p. 0 \<le> e"
    and "0 < n"
  using assms by (auto simp: irreducible_polynomials_def py_max_def split: if_splits)

lemma mult_value:
  assumes a: "valid_gp a" and b: "valid_gp b" and eq: "length_gp a = length_gp b"
      and nn: "\<forall>e\<in>set (irr_pol a). 0 \<le> e" and pos: "0 < length_gp a"
  shows "\<exists>c va vb. intval a = Inr va \<and> intval b = Inr vb \<and> mult a b = Inr c \<and>
           valid_gp c \<and> intval c = Inr (gf_mult (length_gp a) (irr_pol a) va vb)"
proof -
  let ?n = "length_gp a"
  let ?va = "bits_value (bits a)" and ?vb = "bits_value (bits b)"
  let ?g = "gf_mult ?n (irr_pol a) ?va ?vb"
  note A = valid_gp_element [OF a]
  note B = valid_gp_element [OF b, folded eq]
  have ia: "intval a = Inr ?va" using intval_element [OF pos A(2,3), of "irr_pol a"] A(1) by simp
  have ib: "intval b = Inr ?vb" using intval_element [OF pos B(2,3), of "irr_pol b"] B(1) by simp
  from mult_valid [OF a b eq] nn have m: "mult a b = Inr (element ?n (irr_pol a) ?g)" by auto
  have g: "0 \<le> ?g" "?g < 2 ^ ?n" using gf_mult_below [OF A(4) A(2,3) B(2,3)] by blast+
  have ic: "intval (element ?n (irr_pol a) ?g) = Inr ?g" by (rule intval_element [OF pos g])
  have vc: "valid_gp (element ?n (irr_pol a) ?g)" by (rule element_valid [OF A(4)])
  from ia ib m ic vc show ?thesis by blast
qed

lemma gf_mult_aes_2_3: "gf_mult 8 [8, 4, 3, 1, 0] 2 3 = 6"
  by code_simp

lemma aes_vector:
  "\<exists>x y z. GaloisPolynomial_init 8 2 [8, 4, 3, 1, 0] = Inr x \<and>
           GaloisPolynomial_init 8 3 [8, 4, 3, 1, 0] = Inr y \<and>
           mult x y = Inr z \<and> intval z = Inr 6"
proof -
  let ?p = "[8, 4, 3, 1, 0] :: int list"
  have p: "py_max ?p = Inr (int 8)" "?p \<noteq> []" "\<forall>e\<in>set ?p. 0 \<le> e" by (simp_all add: py_max_def)
  have x: "GaloisPolynomial_init 8 2 ?p = Inr (element 8 ?p 2)" by (rule init_ok [OF p(2,1)]) simp_all
  have y: "GaloisPolynomial_init 8 3 ?p = Inr (element 8 ?p 3)" by (rule init_ok [OF p(2,1)]) simp_all
  have "mult (element 8 ?p 2) (element 8 ?p 3) = Inr (element 8 ?p (gf_mult 8 ?p 2 3))"
    by (rule mult_element [OF p(1,3)]) simp_all
  then have z: "mult (element 8 ?p 2) (element 8 ?p 3) = Inr (element 8 ?p 6)"
    by (simp only: gf_mult_aes_2_3)
  have i: "intval (element 8 ?p 6) = Inr 6" by (rule intval_element) simp_all
  from x y z i show ?thesis by blast
qed

section \<open>The product as the remainder of a division\<close>

text \<open>The carry-less product is the product of polynomials over GF(2): it distributes
  over XOR, multiplies by \<open>x^k\<close> as a shift, has the convolution of the coefficients as
  its coefficients, and commutes. The reduction is a division with remainder, and the
  remainder of degree below \<open>n\<close> is unique.\<close>

lemma xor_bounds:
  "0 \<le> a \<Longrightarrow> a < 2 ^ n \<Longrightarrow> 0 \<le> b \<Longrightarrow> b < 2 ^ n \<Longrightarrow> 0 \<le> a XOR b \<and> a XOR b < 2 ^ n"
  for a b :: int
  by (simp add: XOR_upper)

lemma carryless_product_zero [simp]: "carryless_product a 0 = 0"
  by (simp add: carryless_product.simps [of a 0])

lemma carryless_product_rec:
  "0 \<le> b \<Longrightarrow>
   carryless_product a b = (if odd b then a else 0) XOR carryless_product (2 * a) (b div 2)"
  by (cases "b = 0") (simp_all add: carryless_product.simps [of a b])

lemma carryless_product_xor_right:
  "0 \<le> b \<Longrightarrow> b < 2 ^ n \<Longrightarrow> 0 \<le> c \<Longrightarrow> c < 2 ^ n \<Longrightarrow>
   carryless_product a (b XOR c) = carryless_product a b XOR carryless_product a c"
proof (induction n arbitrary: a b c)
  case 0
  then have "b = 0" "c = 0" by simp_all
  then show ?case by simp
next
  case (Suc n)
  have bc: "0 \<le> b XOR c" using Suc.prems by simp
  have h: "0 \<le> b div 2" "b div 2 < 2 ^ n" "0 \<le> c div 2" "c div 2 < 2 ^ n"
    using Suc.prems by auto
  have d: "(b XOR c) div 2 = b div 2 XOR c div 2"
    by (rule bit_eqI) (simp add: bit_xor_iff flip: bit_Suc)
  have o: "(if odd (b XOR c) then a else 0) = (if odd b then a else 0) XOR (if odd c then a else 0)"
    by (auto simp: even_xor_iff)
  have "carryless_product a (b XOR c)
        = (if odd (b XOR c) then a else 0) XOR carryless_product (2 * a) ((b XOR c) div 2)"
    by (rule carryless_product_rec [OF bc])
  also have "\<dots> = ((if odd b then a else 0) XOR (if odd c then a else 0))
                   XOR (carryless_product (2 * a) (b div 2) XOR carryless_product (2 * a) (c div 2))"
    unfolding d o Suc.IH [OF h] ..
  also have "\<dots> = ((if odd b then a else 0) XOR carryless_product (2 * a) (b div 2))
                   XOR ((if odd c then a else 0) XOR carryless_product (2 * a) (c div 2))"
    by (simp add: ac_simps)
  also have "\<dots> = carryless_product a b XOR carryless_product a c"
    using carryless_product_rec [of b a] carryless_product_rec [of c a] Suc.prems by simp
  finally show ?case .
qed

lemma carryless_product_power: "carryless_product a (2 ^ k) = push_bit k a"
proof (induction k arbitrary: a)
  case 0
  then show ?case by (simp add: carryless_product.simps [of a 1])
next
  case (Suc k)
  have "carryless_product a (2 ^ Suc k) = carryless_product (2 * a) (2 ^ k)"
    using carryless_product_rec [of "2 ^ Suc k" a] by simp
  with Suc [of "2 * a"] show ?case by (simp add: push_bit_double mult.commute)
qed

text \<open>Long division leaves the dividend minus a multiple of the divisor.\<close>

lemma poly_reduce_division:
  assumes P: "bit P n" "0 \<le> P" "P < 2 ^ Suc n"
  shows "0 \<le> V \<and> V < 2 ^ (n + k) \<Longrightarrow>
         \<exists>q. 0 \<le> q \<and> q < 2 ^ k \<and> V = carryless_product P q XOR poly_reduce n P k V"
proof (induction k arbitrary: V)
  case 0
  then show ?case by (intro exI [of _ 0]) simp
next
  case (Suc k)
  let ?W = "if bit V (n + k) then V XOR push_bit k P else V"
  from Suc.prems have V: "\<forall>j\<ge>n + Suc k. \<not> bit V j"
    by (simp only: below_power_iff_no_high_bit)
  from P(2,3) have Pn: "\<forall>j\<ge>Suc n. \<not> bit P j"
    using below_power_iff_no_high_bit [of P "Suc n"] by simp
  have "\<forall>j\<ge>n + k. \<not> bit ?W j"
  proof (intro allI impI)
    fix j assume j: "n + k \<le> j"
    show "\<not> bit ?W j"
    proof (cases "j = n + k")
      case True
      with P(1) show ?thesis by (simp add: bit_xor_iff bit_push_bit_iff)
    next
      case False
      with j have "n + Suc k \<le> j" "Suc n \<le> j - k" by auto
      with V Pn show ?thesis by (simp add: bit_xor_iff bit_push_bit_iff)
    qed
  qed
  then have W: "0 \<le> ?W \<and> ?W < 2 ^ (n + k)" by (simp only: below_power_iff_no_high_bit)
  from Suc.IH [OF W] obtain q where q: "0 \<le> q" "q < 2 ^ k"
    "?W = carryless_product P q XOR poly_reduce n P k ?W" by blast
  show ?case
  proof (cases "bit V (n + k)")
    case False
    with q have "V = carryless_product P q XOR poly_reduce n P (Suc k) V" by simp
    moreover have "q < 2 ^ Suc k" using q(2) by (simp add: less_le_trans)
    ultimately show ?thesis using q(1) by blast
  next
    case True
    let ?q = "q XOR 2 ^ k"
    have qk: "0 \<le> ?q" "?q < 2 ^ Suc k"
      using q(1,2) XOR_upper [of q "Suc k" "2 ^ k"] by simp_all
    have "carryless_product P ?q = carryless_product P q XOR push_bit k P"
      using carryless_product_xor_right [of q "Suc k" "2 ^ k" P] q(1,2)
      by (simp add: carryless_product_power)
    moreover from True q(3) have "V XOR push_bit k P
        = carryless_product P q XOR poly_reduce n P (Suc k) V" by simp
    then have "V = (carryless_product P q XOR poly_reduce n P (Suc k) V) XOR push_bit k P"
      by (metis xor.assoc xor_self_eq xor.right_neutral)
    ultimately have "V = carryless_product P ?q XOR poly_reduce n P (Suc k) V"
      by (simp add: ac_simps)
    with qk show ?thesis by blast
  qed
qed

lemma bit_xor_sum: "bit (xor_sum vs) k \<longleftrightarrow> odd (length (filter (\<lambda>v. bit v k) vs))"
  by (induction vs) (auto simp: bit_xor_iff)

lemma below_some_power: "0 \<le> (b::int) \<Longrightarrow> b < 2 ^ nat b"
proof -
  assume "0 \<le> b"
  have "nat b < 2 ^ nat b" by (rule less_exp)
  then have "int (nat b) < int (2 ^ nat b)" by (simp only: of_nat_less_iff)
  with \<open>0 \<le> b\<close> show ?thesis by simp
qed

lemma bit_carryless_product:
  assumes b: "0 \<le> b"
  shows "bit (carryless_product a b) k \<longleftrightarrow> odd (card {s. s \<le> k \<and> bit b s \<and> bit a (k - s)})"
proof -
  let ?n = "nat b"
  have bn: "b < 2 ^ ?n" by (rule below_some_power [OF b])
  let ?L = "filter (bit b) [0..<?n]"
  have "bit (carryless_product a b) k
        \<longleftrightarrow> odd (length (filter (\<lambda>v. bit v k) (map (\<lambda>s. push_bit s a) ?L)))"
    unfolding carryless_product_shifts [OF b bn, symmetric] by (rule bit_xor_sum)
  also have "length (filter (\<lambda>v. bit v k) (map (\<lambda>s. push_bit s a) ?L))
             = length (filter (\<lambda>s. s \<le> k \<and> bit b s \<and> bit a (k - s)) [0..<?n])"
    by (simp add: filter_map comp_def bit_push_bit_iff conj_commute conj_left_commute)
  also have "\<dots> = card ({s. s \<le> k \<and> bit b s \<and> bit a (k - s)} \<inter> set [0..<?n])"
    by (rule distinct_length_filter) simp
  also have "{s. s \<le> k \<and> bit b s \<and> bit a (k - s)} \<inter> set [0..<?n]
             = {s. s \<le> k \<and> bit b s \<and> bit a (k - s)}"
  proof -
    have "s < ?n" if "bit b s" for s
      using no_high_bit [OF b bn, of s] that by (meson not_le)
    then show ?thesis by auto
  qed
  finally show ?thesis .
qed

lemma carryless_product_commute:
  assumes "0 \<le> a" "0 \<le> b"
  shows "carryless_product a b = carryless_product b a"
proof (rule bit_eqI)
  fix k
  let ?A = "{s. s \<le> k \<and> bit b s \<and> bit a (k - s)}"
  let ?B = "{s. s \<le> k \<and> bit a s \<and> bit b (k - s)}"
  have inj: "inj_on (\<lambda>s. k - s) ?A" by (rule inj_onI) auto
  have "(\<lambda>s. k - s) ` ?A = ?B"
  proof (rule set_eqI)
    fix t
    show "t \<in> (\<lambda>s. k - s) ` ?A \<longleftrightarrow> t \<in> ?B"
    proof
      assume "t \<in> (\<lambda>s. k - s) ` ?A"
      then obtain s where "s \<le> k" "bit b s" "bit a (k - s)" "t = k - s" by auto
      then show "t \<in> ?B" by simp
    next
      assume "t \<in> ?B"
      then have t: "t \<le> k" "bit a t" "bit b (k - t)" by auto
      then have "k - t \<in> ?A" "t = k - (k - t)" by auto
      then show "t \<in> (\<lambda>s. k - s) ` ?A" by (rule rev_image_eqI)
    qed
  qed
  with card_image [OF inj] have "card ?A = card ?B" by simp
  then show "bit (carryless_product a b) k = bit (carryless_product b a) k"
    by (simp add: bit_carryless_product assms)
qed

lemma top_bit:
  "0 < q \<Longrightarrow> q < 2 ^ m \<Longrightarrow> \<exists>d. bit (q::int) d \<and> (\<forall>j>d. \<not> bit q j)"
proof (induction m)
  case 0
  then show ?case by simp
next
  case (Suc m)
  show ?case
  proof (cases "bit q m")
    case True
    have "\<forall>j>m. \<not> bit q j" using no_high_bit [of q "Suc m"] Suc.prems by auto
    with True show ?thesis by blast
  next
    case False
    have "\<forall>j\<ge>m. \<not> bit q j"
    proof (intro allI impI)
      fix j assume "m \<le> j"
      show "\<not> bit q j"
      proof (cases "j = m")
        case True
        with False show ?thesis by simp
      next
        case False
        with \<open>m \<le> j\<close> have "Suc m \<le> j" by simp
        then show ?thesis using no_high_bit [of q "Suc m" j] Suc.prems by simp
      qed
    qed
    then have "0 \<le> q \<and> q < 2 ^ m" by (simp only: below_power_iff_no_high_bit)
    with Suc show ?thesis by simp
  qed
qed

lemma carryless_product_degree:
  assumes P: "bit P n" "0 \<le> P" "P < 2 ^ Suc n" and q: "0 < q"
  shows "\<exists>d. bit (carryless_product P q) (n + d)"
proof -
  from q have "0 \<le> q" by simp
  from top_bit [OF q below_some_power [OF this]]
  obtain d where d: "bit q d" "\<forall>j>d. \<not> bit q j" by blast
  from P(2,3) have Pn: "\<forall>j\<ge>Suc n. \<not> bit P j"
    using below_power_iff_no_high_bit [of P "Suc n"] by simp
  have "{s. s \<le> n + d \<and> bit q s \<and> bit P (n + d - s)} = {d}"
  proof (rule set_eqI)
    fix s
    show "s \<in> {s. s \<le> n + d \<and> bit q s \<and> bit P (n + d - s)} \<longleftrightarrow> s \<in> {d}"
    proof
      assume "s \<in> {s. s \<le> n + d \<and> bit q s \<and> bit P (n + d - s)}"
      then have s: "s \<le> n + d" "bit q s" "bit P (n + d - s)" by auto
      from s(2) d(2) have "s \<le> d" by (meson not_le)
      moreover from s(3) Pn have "n + d - s \<le> n" by (meson not_less_eq_eq)
      ultimately show "s \<in> {d}" using s(1) by simp
    next
      assume "s \<in> {d}"
      with d(1) P(1) show "s \<in> {s. s \<le> n + d \<and> bit q s \<and> bit P (n + d - s)}" by simp
    qed
  qed
  then have "bit (carryless_product P q) (n + d)"
    using \<open>0 \<le> q\<close> by (simp add: bit_carryless_product)
  then show ?thesis ..
qed

lemma xor_left_cancel: "(a::int) XOR b = a XOR c \<Longrightarrow> b = c"
proof -
  assume "a XOR b = a XOR c"
  then have "a XOR (a XOR b) = a XOR (a XOR c)" by simp
  then show "b = c" by (simp add: xor.assoc [symmetric])
qed

lemma remainder_unique:
  assumes P: "bit P n" "0 \<le> P" "P < 2 ^ Suc n"
      and q: "0 \<le> q1" "0 \<le> q2"
      and r: "0 \<le> r1" "r1 < 2 ^ n" "0 \<le> r2" "r2 < 2 ^ n"
      and eq: "carryless_product P q1 XOR r1 = carryless_product P q2 XOR r2"
  shows "q1 = q2 \<and> r1 = r2"
proof -
  let ?q = "q1 XOR q2"
  let ?m = "max (nat q1) (nat q2)"
  have b1: "q1 < 2 ^ ?m"
    using below_some_power [OF q(1)] power_increasing [of "nat q1" ?m "2::int"]
    by (simp add: less_le_trans)
  have b2: "q2 < 2 ^ ?m"
    using below_some_power [OF q(2)] power_increasing [of "nat q2" ?m "2::int"]
    by (simp add: less_le_trans)
  have lin: "carryless_product P ?q = carryless_product P q1 XOR carryless_product P q2"
    by (rule carryless_product_xor_right [OF q(1) b1 q(2) b2])
  from eq have "(carryless_product P q1 XOR r1) XOR (carryless_product P q2 XOR r1)
                = (carryless_product P q2 XOR r2) XOR (carryless_product P q2 XOR r1)"
    by simp
  then have "carryless_product P q1 XOR carryless_product P q2 = r1 XOR r2"
    by (simp add: ac_simps)
  with lin have cr: "carryless_product P ?q = r1 XOR r2" by simp
  have low: "\<forall>j\<ge>n. \<not> bit (r1 XOR r2) j"
    using xor_bounds [OF r] below_power_iff_no_high_bit [of "r1 XOR r2" n] by simp
  have "?q = 0"
  proof (rule ccontr)
    assume nz: "?q \<noteq> 0"
    have "0 \<le> ?q" using q by simp
    with nz have "0 < ?q" by linarith
    from carryless_product_degree [OF P this] obtain d where
      "bit (carryless_product P ?q) (n + d)" ..
    with cr low show False by simp
  qed
  then have "q1 = q2" by (metis xor_self_eq xor.assoc xor.right_neutral xor.commute)
  with eq have "r1 = r2" by (auto dest: xor_left_cancel)
  with \<open>q1 = q2\<close> show ?thesis ..
qed

lemma gf_mult_remainder:
  assumes p: "py_max p = Inr (int n)"
      and a: "0 \<le> a" "a < 2 ^ n" and b: "0 \<le> b" "b < 2 ^ n"
  shows "0 \<le> gf_mult n p a b \<and> gf_mult n p a b < 2 ^ n \<and>
         (\<exists>q\<ge>0. carryless_product a b
                  = carryless_product (poly_of_exponents p) q XOR gf_mult n p a b) \<and>
         (\<forall>q r. 0 \<le> q \<and> 0 \<le> r \<and> r < 2 ^ n \<and>
                carryless_product a b = carryless_product (poly_of_exponents p) q XOR r
                \<longrightarrow> r = gf_mult n p a b)"
proof -
  let ?P = "poly_of_exponents p"
  let ?V = "carryless_product a b"
  note P = poly_of_exponents_degree [OF p]
  have P': "bit ?P n" "0 \<le> ?P" "?P < 2 ^ Suc n" using P by simp_all
  have V: "0 \<le> ?V \<and> ?V < 2 ^ (n + n)" by (rule carryless_product_below [OF a b])
  have g: "0 \<le> gf_mult n p a b" "gf_mult n p a b < 2 ^ n"
    using gf_mult_below [OF p a b] by simp_all
  from poly_reduce_division [OF P' V] obtain q where
    q: "0 \<le> q" "?V = carryless_product ?P q XOR gf_mult n p a b"
    by (auto simp: gf_mult_def)
  have u: "r = gf_mult n p a b"
    if "0 \<le> q'" "0 \<le> r" "r < 2 ^ n" "?V = carryless_product ?P q' XOR r" for q' r
    using remainder_unique [OF P' that(1) q(1) that(2,3) g] that(4) q(2) by simp
  from g q u show ?thesis by blast
qed

lemma poly_reduce_small: "0 \<le> v \<Longrightarrow> v < 2 ^ n \<Longrightarrow> poly_reduce n P k v = v"
proof (induction k)
  case 0
  then show ?case by simp
next
  case (Suc k)
  then have "\<not> bit v (n + k)" using no_high_bit [of v n "n + k"] by simp
  with Suc show ?case by simp
qed

section \<open>Claims about the field engine\<close>

text \<open>
  C2. For each of the five supported widths \<open>n\<close> with the polynomial \<open>p\<close> of the table, and
  all field elements \<open>a\<close> and \<open>b\<close> of width \<open>n\<close>, \<open>mult a b\<close> returns the element whose
  value \<open>r\<close> is the carry-less product of the two values reduced modulo the polynomial
  of \<open>p\<close>: \<open>r\<close> is below \<open>2^n\<close>, differs from the carry-less product by a multiple of the
  polynomial, and is the only such value. At width 8 with exponents 8, 4, 3, 1, 0 the
  elements of values 2 and 3 multiply to the element of value 6.
\<close>

theorem mult_is_field_product:
  "(irreducible_polynomials n = Some p \<and> valid_gp a \<and> valid_gp b \<and>
    length_gp a = n \<and> length_gp b = n \<and> irr_pol a = p \<longrightarrow>
      (\<exists>c va vb r. intval a = Inr va \<and> intval b = Inr vb \<and> mult a b = Inr c \<and>
         intval c = Inr r \<and> r = gf_mult n p va vb \<and> 0 \<le> r \<and> r < 2 ^ n \<and>
         (\<exists>q\<ge>0. carryless_product va vb = carryless_product (poly_of_exponents p) q XOR r) \<and>
         (\<forall>q r'. 0 \<le> q \<and> 0 \<le> r' \<and> r' < 2 ^ n \<and>
            carryless_product va vb = carryless_product (poly_of_exponents p) q XOR r'
            \<longrightarrow> r' = r))) \<and>
   (\<exists>x y z. GaloisPolynomial_init 8 2 [8, 4, 3, 1, 0] = Inr x \<and>
            GaloisPolynomial_init 8 3 [8, 4, 3, 1, 0] = Inr y \<and>
            mult x y = Inr z \<and> intval z = Inr 6)"
proof (intro conjI impI)
  assume h: "irreducible_polynomials n = Some p \<and> valid_gp a \<and> valid_gp b \<and>
    length_gp a = n \<and> length_gp b = n \<and> irr_pol a = p"
  then have t: "\<forall>e\<in>set (irr_pol a). 0 \<le> e" "0 < length_gp a"
    using table_polynomial(3,4) [of n p] by auto
  from h have a: "valid_gp a" and b: "valid_gp b" and na: "length_gp a = n"
    and nb: "length_gp b = n" and pa: "irr_pol a = p"
    by simp_all
  let ?va = "bits_value (bits a)" and ?vb = "bits_value (bits b)"
  note A = valid_gp_element [OF a, unfolded na pa]
  note B = valid_gp_element [OF b, unfolded nb]
  from t(2) na have pos: "0 < n" by simp
  have ia: "intval a = Inr ?va"
    using intval_element [OF pos A(2,3), of p] A(1) by simp
  have ib: "intval b = Inr ?vb"
    using intval_element [OF pos B(2,3), of "irr_pol b"] B(1) by simp
  from na nb have "length_gp a = length_gp b" by simp
  from mult_value [OF a b this t] ia ib na pa
  obtain c where c: "mult a b = Inr c" "intval c = Inr (gf_mult n p ?va ?vb)"
    by auto
  note R = gf_mult_remainder [OF A(4) A(2,3) B(2,3)]
  from R have r1: "0 \<le> gf_mult n p ?va ?vb" "gf_mult n p ?va ?vb < 2 ^ n"
    and r2: "\<exists>q\<ge>0. carryless_product ?va ?vb
               = carryless_product (poly_of_exponents p) q XOR gf_mult n p ?va ?vb"
    and r3: "\<forall>q r'. 0 \<le> q \<and> 0 \<le> r' \<and> r' < 2 ^ n \<and>
            carryless_product ?va ?vb = carryless_product (poly_of_exponents p) q XOR r'
            \<longrightarrow> r' = gf_mult n p ?va ?vb"
    by blast+
  show "\<exists>c va vb r. intval a = Inr va \<and> intval b = Inr vb \<and> mult a b = Inr c \<and>
         intval c = Inr r \<and> r = gf_mult n p va vb \<and> 0 \<le> r \<and> r < 2 ^ n \<and>
         (\<exists>q\<ge>0. carryless_product va vb = carryless_product (poly_of_exponents p) q XOR r) \<and>
         (\<forall>q r'. 0 \<le> q \<and> 0 \<le> r' \<and> r' < 2 ^ n \<and>
            carryless_product va vb = carryless_product (poly_of_exponents p) q XOR r'
            \<longrightarrow> r' = r)"
    apply (rule exI [of _ c], rule exI [of _ ?va], rule exI [of _ ?vb],
           rule exI [of _ "gf_mult n p ?va ?vb"])
    using ia ib c r1 r2 r3 by simp
next
  show "\<exists>x y z. GaloisPolynomial_init 8 2 [8, 4, 3, 1, 0] = Inr x \<and>
            GaloisPolynomial_init 8 3 [8, 4, 3, 1, 0] = Inr y \<and>
            mult x y = Inr z \<and> intval z = Inr 6"
    by (rule aes_vector)
qed

theorem mult_is_field_product_witness:
  "\<exists>c. mult (element 8 [8, 4, 3, 1, 0] 83) (element 8 [8, 4, 3, 1, 0] 202) = Inr c \<and>
        intval c = Inr 1 \<and>
        carryless_product 83 202 = carryless_product (poly_of_exponents [8, 4, 3, 1, 0]) 61 XOR 1"
proof -
  let ?p = "[8, 4, 3, 1, 0] :: int list"
  have t: "irreducible_polynomials 8 = Some ?p" by (simp add: irreducible_polynomials_def)
  have i: "intval (element 8 ?p 83) = Inr 83" "intval (element 8 ?p 202) = Inr 202"
    by (rule intval_element; simp)+
  have g: "gf_mult 8 ?p 83 202 = 1" by code_simp
  have q: "carryless_product 83 202 = carryless_product (poly_of_exponents ?p) 61 XOR 1"
    by code_simp
  from mult_is_field_product [of 8 ?p "element 8 ?p 83" "element 8 ?p 202"] t i g q
  show ?thesis by (auto simp: valid_aes_element)
qed

text \<open>
  C3. For same-width field elements \<open>a\<close> and \<open>b\<close> whose exponent list has its maximum equal
  to the width, \<open>mult\<close> never fails on the assertion of line 85; when the exponents are
  not negative, the reduction loop ends with an intermediate polynomial of \<open>2 * n\<close> bits
  whose upper \<open>n\<close> bits are all zero, and \<open>mult\<close> returns its lower \<open>n\<close> bits.
\<close>

theorem reduction_clears_upper_half:
  assumes "valid_gp a" "valid_gp b" "length_gp a = length_gp b"
  shows "mult a b \<noteq> Inl (AssertionError UpperBitsNonzero) \<and>
         ((\<forall>e\<in>set (irr_pol a). 0 \<le> e) \<longrightarrow>
          (\<exists>ip c. mult_reduced a b = Inr ip \<and> length ip = 2 * length_gp a \<and>
                  take (length_gp a) ip = replicate (length_gp a) 0 \<and>
                  mult a b = Inr c \<and> bits c = drop (length_gp a) ip))"
proof
  from mult_valid [OF assms] show "mult a b \<noteq> Inl (AssertionError UpperBitsNonzero)" by auto
next
  let ?n = "length_gp a"
  let ?g = "gf_mult ?n (irr_pol a) (bits_value (bits a)) (bits_value (bits b))"
  note A = valid_gp_element [OF assms(1)]
  note B = valid_gp_element [OF assms(2), folded assms(3)]
  show "(\<forall>e\<in>set (irr_pol a). 0 \<le> e) \<longrightarrow>
          (\<exists>ip c. mult_reduced a b = Inr ip \<and> length ip = 2 * length_gp a \<and>
                  take (length_gp a) ip = replicate (length_gp a) 0 \<and>
                  mult a b = Inr c \<and> bits c = drop (length_gp a) ip)"
  proof
    assume nn: "\<forall>e\<in>set (irr_pol a). 0 \<le> e"
    have "mult_reduced (element ?n (irr_pol a) (bits_value (bits a)))
                       (element ?n (irr_pol b) (bits_value (bits b)))
          = Inr (bits_of (2 * ?n) ?g)"
      by (rule mult_reduced_element [OF A(4) nn A(2,3) B(2,3)])
    then have r: "mult_reduced a b = Inr (bits_of (2 * ?n) ?g)" using A(1) B(1) by simp
    have g: "0 \<le> ?g" "?g < 2 ^ ?n" using gf_mult_below [OF A(4) A(2,3) B(2,3)] by blast+
    have tk: "take ?n (bits_of (2 * ?n) ?g) = replicate ?n 0"
      using take_bits_of_zero [OF g, of ?n] by (simp add: mult_2)
    have dr: "drop ?n (bits_of (2 * ?n) ?g) = bits_of ?n ?g"
      using drop_bits_of [of ?n ?n ?g] by (simp add: mult_2)
    from mult_valid [OF assms] nn have m: "mult a b = Inr (element ?n (irr_pol a) ?g)" by auto
    have "bits (element ?n (irr_pol a) ?g) = drop ?n (bits_of (2 * ?n) ?g)"
      by (simp add: element_def dr)
    with r tk m show "\<exists>ip c. mult_reduced a b = Inr ip \<and> length ip = 2 * length_gp a \<and>
                  take (length_gp a) ip = replicate (length_gp a) 0 \<and>
                  mult a b = Inr c \<and> bits c = drop (length_gp a) ip"
      by (intro exI [of _ "bits_of (2 * ?n) ?g"] exI [of _ "element ?n (irr_pol a) ?g"]) simp
  qed
qed

theorem reduction_clears_upper_half_witness:
  "mult (element 8 [8, 4, 3, 1, 0] 83) (element 8 [8, 4, 3, 1, 0] 202)
     \<noteq> Inl (AssertionError UpperBitsNonzero) \<and>
   (\<exists>ip c. mult_reduced (element 8 [8, 4, 3, 1, 0] 83) (element 8 [8, 4, 3, 1, 0] 202) = Inr ip \<and>
           length ip = 16 \<and> take 8 ip = replicate 8 0 \<and>
           mult (element 8 [8, 4, 3, 1, 0] 83) (element 8 [8, 4, 3, 1, 0] 202) = Inr c \<and>
           bits c = drop 8 ip)"
  using reduction_clears_upper_half
          [OF valid_aes_element [of 83] valid_aes_element [of 202]]
  by (simp add: element_def)

text \<open>
  C7. For every supported bit-width \<open>n\<close> (8, 64, 128, 256, 512, with the polynomial of
  the table) and every integer \<open>v\<close> with \<open>0 \<le> v < 2 ^ n\<close>, the constructor returns an
  element and \<open>intval\<close> of that element is \<open>v\<close>; for every \<open>v \<ge> 2 ^ n\<close> the constructor
  fails, on the assertion \<^verbatim>\<open>assert(i >= 0)\<close> of its loop.
\<close>

theorem construction_inverse:
  "n \<in> {8, 64, 128, 256, 512} \<Longrightarrow>
   (0 \<le> v \<and> v < 2 ^ n \<longrightarrow> (\<exists>g. GaloisPolynomial_init n v [] = Inr g \<and> intval g = Inr v)) \<and>
   (2 ^ n \<le> v \<longrightarrow> GaloisPolynomial_init n v [] = Inl (AssertionError ValueTooWide))"
proof -
  assume n: "n \<in> {8, 64, 128, 256, 512}"
  then obtain p where p: "irreducible_polynomials n = Some p" "p \<noteq> []" "py_max p = Inr (int n)"
    using supported_table by blast
  from n have pos: "0 < n" by auto
  show ?thesis
    using p pos by (auto simp: init_default [OF p(1)] init_ok init_too_wide intval_element)
qed

theorem construction_inverse_witness:
  "(\<exists>g. GaloisPolynomial_init 8 5 [] = Inr g \<and> intval g = Inr 5) \<and>
   GaloisPolynomial_init 8 256 [] = Inl (AssertionError ValueTooWide)"
  using construction_inverse [of 8 5] construction_inverse [of 8 256] by simp

text \<open>
  C9. The constructor returns elements that satisfy the representation invariant
  (\<open>valid_gp\<close>: exactly \<open>length_gp\<close> bits, each 0 or 1, and an exponent list whose maximum
  is the width); \<open>xor_gp\<close> and \<open>mult\<close> of such elements return such an element, of the
  width and with the exponent list of the receiving operand; the integer value of such an
  element of positive width is below \<open>2 ^ n\<close>.
\<close>

theorem representation_invariant:
  "(GaloisPolynomial_init n v p = Inr g \<longrightarrow> valid_gp g \<and> length_gp g = n) \<and>
   (valid_gp a \<and> valid_gp b \<and> xor_gp a b = Inr c \<longrightarrow>
      valid_gp c \<and> length_gp c = length_gp a \<and> irr_pol c = irr_pol a) \<and>
   (valid_gp a \<and> valid_gp b \<and> mult a b = Inr d \<longrightarrow>
      valid_gp d \<and> length_gp d = length_gp a \<and> irr_pol d = irr_pol a) \<and>
   (valid_gp h \<and> 0 < length_gp h \<longrightarrow>
      (\<exists>w. intval h = Inr w \<and> 0 \<le> w \<and> w < 2 ^ length_gp h))"
proof (intro conjI impI)
  assume "GaloisPolynomial_init n v p = Inr g"
  then obtain p' where "g = element n p' v" "py_max p' = Inr (int n)"
    using init_Inr by blast
  then show "valid_gp g" "length_gp g = n" by (simp_all add: element_valid)
next
  assume h: "valid_gp a \<and> valid_gp b \<and> xor_gp a b = Inr c"
  then have eq: "length_gp a = length_gp b" using width_mismatch(1) [of a b] by auto
  from h have c: "c = element (length_gp a) (irr_pol a) (bits_value (bits a) XOR bits_value (bits b))"
    using xor_valid [OF _ _ eq] by simp
  from h have "py_max (irr_pol a) = Inr (int (length_gp a))" by (simp add: valid_gp_def)
  then show "valid_gp c" unfolding c by (rule element_valid)
  show "length_gp c = length_gp a" "irr_pol c = irr_pol a" by (simp_all add: c element_def)
next
  assume h: "valid_gp a \<and> valid_gp b \<and> mult a b = Inr d"
  then have eq: "length_gp a = length_gp b" using width_mismatch(2) [of a b] by auto
  from h mult_valid [OF _ _ eq]
  have d: "d = element (length_gp a) (irr_pol a)
                 (gf_mult (length_gp a) (irr_pol a) (bits_value (bits a)) (bits_value (bits b)))"
    by auto
  from h have "py_max (irr_pol a) = Inr (int (length_gp a))" by (simp add: valid_gp_def)
  then show "valid_gp d" unfolding d by (rule element_valid)
  show "length_gp d = length_gp a" "irr_pol d = irr_pol a" by (simp_all add: d element_def)
next
  assume h: "valid_gp h \<and> 0 < length_gp h"
  then have v: "valid_gp h" and pos: "0 < length_gp h" by simp_all
  note H = valid_gp_element [OF v]
  have "intval (element (length_gp h) (irr_pol h) (bits_value (bits h))) = Inr (bits_value (bits h))"
    by (rule intval_element [OF pos H(2,3)])
  with H show "\<exists>w. intval h = Inr w \<and> 0 \<le> w \<and> w < 2 ^ length_gp h" by auto
qed

theorem representation_invariant_witness:
  "valid_gp (element 8 [8, 4, 3, 1, 0] 5) \<and>
   xor_gp (element 8 [8, 4, 3, 1, 0] 5) (element 8 [8, 4, 3, 1, 0] 3)
     = Inr (element 8 [8, 4, 3, 1, 0] 6) \<and>
   valid_gp (element 8 [8, 4, 3, 1, 0] 6) \<and>
   mult (element 8 [8, 4, 3, 1, 0] 5) (element 8 [8, 4, 3, 1, 0] 3)
     = Inr (element 8 [8, 4, 3, 1, 0] 15) \<and>
   valid_gp (element 8 [8, 4, 3, 1, 0] 15) \<and>
   (\<exists>w. intval (element 8 [8, 4, 3, 1, 0] 5) = Inr w \<and> 0 \<le> w \<and> w < 2 ^ 8)"
proof -
  let ?p = "[8, 4, 3, 1, 0] :: int list"
  let ?e = "element 8 ?p"
  have p: "py_max ?p = Inr (int 8)" "?p \<noteq> []" "\<forall>e\<in>set ?p. 0 \<le> e" by (simp_all add: py_max_def)
  have i: "GaloisPolynomial_init 8 5 [] = Inr (?e 5)"
    using init_ok [OF p(2,1), of 5] init_default [of 8 ?p 5]
    by (simp add: irreducible_polynomials_def)
  have x: "xor_gp (?e 5) (?e 3) = Inr (?e 6)" using xor_element [OF p(1), of 5 ?p 3] by simp
  have g: "gf_mult 8 ?p 5 3 = 15" by code_simp
  have "mult (?e 5) (?e 3) = Inr (?e (gf_mult 8 ?p 5 3))" by (rule mult_element [OF p(1,3)]) simp_all
  then have m: "mult (?e 5) (?e 3) = Inr (?e 15)" by (simp only: g)
  have l: "length_gp (?e 5) = 8" by (simp add: element_def)
  from representation_invariant [of 8 5 "[]" "?e 5" "?e 5" "?e 3" "?e 6" "?e 15" "?e 5"] i x m l
  show ?thesis by (simp add: valid_aes_element)
qed

section \<open>The modes: keystream, accumulator and tag\<close>

lemma yield_simp [simp]: "yield x (ys, r) = (x # ys, r)"
  by (simp add: yield_def)

lemma try_gen_Inr [simp]: "try_gen (Inr v) f = f v"
  by (simp add: try_gen_def)

lemma try_gen_Inl [simp]: "try_gen (Inl e) f = ([], Inl e)"
  by (simp add: try_gen_def)

lemma length_xor_mode [simp]: "length (xor_mode a b) = min (length a) (length b)"
  by (simp add: xor_mode_def)

lemma nth_xor_mode:
  "i < length a \<Longrightarrow> i < length b \<Longrightarrow> xor_mode a b ! i = a ! i XOR b ! i"
  by (simp add: xor_mode_def)

lemma xor_mode_take: "xor_mode a (take (length a) b) = xor_mode a b"
  by (rule nth_equalityI) (simp_all add: nth_xor_mode)

lemma xor_mode_involution: "length a \<le> length b \<Longrightarrow> xor_mode (xor_mode a b) b = a"
  by (rule nth_equalityI) (simp_all add: nth_xor_mode xor.assoc)

lemma length_le_bytes [simp]: "length (le_bytes n v) = n"
  by (induction n arbitrary: v) auto

lemma length_keystream_xor [simp]: "length (keystream_xor self c xs) = length xs"
  by (induction xs arbitrary: c) auto

lemma keystream_xor_nth:
  "i < length xs \<Longrightarrow>
   keystream_xor self c xs ! i =
     xor_mode (xs ! i)
       (encrypt_block (cipher self)
          (nonce self @ rev (le_bytes (length (nonce self)) (c + int i))))"
proof (induction xs arbitrary: c i)
  case Nil
  then show ?case by simp
next
  case (Cons x xs)
  show ?case
  proof (cases i)
    case 0
    then show ?thesis by simp
  next
    case (Suc j)
    with Cons.prems have "j < length xs" by simp
    have "c + 1 + int j = c + int (Suc j)" by simp
    with Cons.IH [OF \<open>j < length xs\<close>, of "c + 1"] Suc show ?thesis by simp
  qed
qed

lemma map_fst_eof [simp]: "map fst (eof_signal_iterator xs) = xs"
  by (induction xs rule: eof_signal_iterator.induct) auto

lemma length_eof [simp]: "length (eof_signal_iterator xs) = length xs"
  by (induction xs rule: eof_signal_iterator.induct) auto

lemma eof_Nil_iff [simp]: "eof_signal_iterator xs = [] \<longleftrightarrow> xs = []"
  by (induction xs rule: eof_signal_iterator.induct) auto

lemma eof_Cons: "eof_signal_iterator (x # xs) = (x, xs = []) # eof_signal_iterator xs"
  by (cases xs) auto

lemma eof_snoc:
  "eof_signal_iterator (xs @ [t]) = map (\<lambda>x. (x, False)) xs @ [(t, True)]"
  by (induction xs) (auto simp: eof_Cons)

lemma get_xor_block_ok:
  "length (nonce self) + length (nonce self) = block_size (cipher self) \<Longrightarrow>
   0 \<le> c \<Longrightarrow> c < 256 ^ length (nonce self) \<Longrightarrow>
   get_xor_block self c =
     Inr (encrypt_block (cipher self) (nonce self @ rev (le_bytes (length (nonce self)) c)))"
  by (simp add: get_xor_block_def to_bytes_big_def)

lemma get_xor_block_size:
  "length (nonce self) + length (nonce self) \<noteq> block_size (cipher self) \<Longrightarrow>
   0 \<le> c \<Longrightarrow> c < 256 ^ length (nonce self) \<Longrightarrow>
   get_xor_block self c = Inl (AssertionError NonceCounterSize)"
  by (simp add: get_xor_block_def to_bytes_big_def)

lemma get_xor_block_overflow:
  "256 ^ length (nonce self) \<le> c \<Longrightarrow> get_xor_block self c = Inl OverflowError"
  by (simp add: get_xor_block_def to_bytes_big_def)

lemma ctr_loop_ok:
  "length (nonce self) + length (nonce self) = block_size (cipher self) \<Longrightarrow>
   0 \<le> c \<Longrightarrow> c + int (length ps) \<le> 256 ^ length (nonce self) \<Longrightarrow>
   ctr_loop self ps c = (keystream_xor self c (map fst ps), Inr ())"
proof (induction ps arbitrary: c)
  case Nil
  then show ?case by simp
next
  case (Cons a ps)
  obtain data eof where a: "a = (data, eof)" by (cases a)
  from Cons.prems have c: "c < 256 ^ length (nonce self)" by simp
  have ih: "ctr_loop self ps (c + 1) = (keystream_xor self (c + 1) (map fst ps), Inr ())"
    by (rule Cons.IH) (use Cons.prems in auto)
  show ?case
    unfolding a
    by (simp add: get_xor_block_ok [OF Cons.prems(1,2) c] ih xor_mode_take Let_def)
qed

lemma ctr_loop_size:
  "length (nonce self) + length (nonce self) \<noteq> block_size (cipher self) \<Longrightarrow> ps \<noteq> [] \<Longrightarrow>
   ctr_loop self ps 0 = ([], Inl (AssertionError NonceCounterSize))"
  by (cases ps) (auto simp: get_xor_block_size)

lemma ctr_loop_overflow:
  "256 ^ length (nonce self) \<le> c \<Longrightarrow> ps \<noteq> [] \<Longrightarrow> ctr_loop self ps c = ([], Inl OverflowError)"
  by (cases ps) (auto simp: get_xor_block_overflow)

lemma to_bytes_big_ok:
  "0 \<le> v \<Longrightarrow> v < 256 ^ n \<Longrightarrow> to_bytes_big v n = Inr (rev (le_bytes n v))"
  by (simp add: to_bytes_big_def)

lemma cbc_encrypt_loop_first:
  "ps \<noteq> [] \<Longrightarrow> \<exists>rest r. cbc_encrypt_loop self ps None = (iv self # rest, r)"
proof (cases ps)
  case Nil
  then show "ps \<noteq> [] \<Longrightarrow> ?thesis" by simp
next
  case (Cons a ps')
  obtain data eof where a: "a = (data, eof)" by (cases a)
  show ?thesis unfolding Cons a by (simp add: yield_def)
qed

lemma cbc_decrypt_loop_spec:
  "\<exists>outs. cbc_decrypt_loop self ps cb = (outs, Inr (Some (last (cb # map fst ps)))) \<and>
          length outs = length ps \<and>
          (\<forall>i<length ps.
             outs ! i =
               (if snd (ps ! i) then remove (padding_scheme self) else id)
                 (xor_mode (decrypt_block (cipher self) (fst (ps ! i))) ((cb # map fst ps) ! i)))"
proof (induction ps arbitrary: cb)
  case Nil
  then show ?case by simp
next
  case (Cons a ps)
  obtain data eof where a: "a = (data, eof)" by (cases a)
  from Cons.IH [of data] obtain outs where
    o: "cbc_decrypt_loop self ps data = (outs, Inr (Some (last (data # map fst ps))))"
       "length outs = length ps"
       "\<forall>i<length ps. outs ! i =
               (if snd (ps ! i) then remove (padding_scheme self) else id)
                 (xor_mode (decrypt_block (cipher self) (fst (ps ! i))) ((data # map fst ps) ! i))"
    by blast
  let ?b = "(if eof then remove (padding_scheme self) else id)
              (xor_mode (decrypt_block (cipher self) data) cb)"
  have "cbc_decrypt_loop self (a # ps) cb = (?b # outs, Inr (Some (last (cb # map fst (a # ps)))))"
    unfolding a using o(1) by (simp add: Let_def)
  moreover have "length (?b # outs) = length (a # ps)" using o(2) by simp
  moreover have "\<forall>i<length (a # ps). (?b # outs) ! i =
               (if snd ((a # ps) ! i) then remove (padding_scheme self) else id)
                 (xor_mode (decrypt_block (cipher self) (fst ((a # ps) ! i)))
                    ((cb # map fst (a # ps)) ! i))"
  proof (intro allI impI)
    fix i assume "i < length (a # ps)"
    then show "(?b # outs) ! i =
               (if snd ((a # ps) ! i) then remove (padding_scheme self) else id)
                 (xor_mode (decrypt_block (cipher self) (fst ((a # ps) ! i)))
                    ((cb # map fst (a # ps)) ! i))"
      using o(3) by (cases i) (auto simp: a)
  qed
  ultimately show ?case by blast
qed

lemma eof_nth:
  "i < length xs \<Longrightarrow> eof_signal_iterator xs ! i = (xs ! i, Suc i = length xs)"
proof (induction xs arbitrary: i rule: eof_signal_iterator.induct)
  case 1
  then show ?case by simp
next
  case (2 x)
  then show ?case by simp
next
  case (3 x y ys)
  then show ?case by (cases i) auto
qed

lemma from_bytes_little_bounds:
  "0 \<le> from_bytes_little b \<and> from_bytes_little b < 256 ^ length b"
proof (induction b)
  case Nil
  then show ?case by simp
next
  case (Cons x b)
  have x: "0 \<le> uint x" "uint x < 256" using uint_lt2p [of x] by simp_all
  from Cons have "uint x + 256 * from_bytes_little b < 256 + 256 * (256 ^ length b - 1) + 1"
    using x by (smt (verit) mult_left_mono)
  with Cons x show ?case by (simp add: algebra_simps)
qed

lemma from_bytes_le_bytes: "0 \<le> v \<Longrightarrow> v < 256 ^ n \<Longrightarrow> from_bytes_little (le_bytes n v) = v"
proof (induction n arbitrary: v)
  case 0
  then show ?case by simp
next
  case (Suc n)
  then have "0 \<le> v div 256" "v div 256 < 256 ^ n" by auto
  with Suc.IH have "from_bytes_little (le_bytes n (v div 256)) = v div 256" by simp
  moreover have "uint (word_of_int (v mod 256) :: byte) = v mod 256"
    by (simp add: uint_word_of_int)
  ultimately show ?case by simp
qed

lemma le_bytes_from_bytes: "le_bytes (length b) (from_bytes_little b) = b"
proof (induction b)
  case Nil
  then show ?case by simp
next
  case (Cons x b)
  have x: "0 \<le> uint x" "uint x < 256" using uint_lt2p [of x] by simp_all
  then have "(uint x + 256 * from_bytes_little b) mod 256 = uint x"
    "(uint x + 256 * from_bytes_little b) div 256 = from_bytes_little b"
    by simp_all
  with Cons show ?case by simp
qed

lemma pow256: "(256::int) ^ n = 2 ^ (8 * n)"
  by (simp add: power_mult)

lemma keystream_xor_involution:
  assumes "\<forall>b. length b = block_size (cipher self) \<longrightarrow>
             length (encrypt_block (cipher self) b) = block_size (cipher self)"
      and "length (nonce self) + length (nonce self) = block_size (cipher self)"
  shows "\<forall>d\<in>set ds. length d = block_size (cipher self) \<Longrightarrow>
         keystream_xor self c (keystream_xor self c ds) = ds \<and>
         (\<forall>d\<in>set (keystream_xor self c ds). length d = block_size (cipher self))"
proof (induction ds arbitrary: c)
  case Nil
  then show ?case by simp
next
  case (Cons d ds)
  let ?k = "encrypt_block (cipher self) (nonce self @ rev (le_bytes (length (nonce self)) c))"
  have k: "length ?k = block_size (cipher self)" using assms by simp
  with Cons.prems have "xor_mode (xor_mode d ?k) ?k = d" "length (xor_mode d ?k) = block_size (cipher self)"
    by (simp_all add: xor_mode_involution)
  with Cons show ?case by simp
qed

lemma GP_ok:
  "irreducible_polynomials n = Some p \<Longrightarrow> 0 \<le> v \<Longrightarrow> v < 2 ^ n \<Longrightarrow>
   GP n v = Inr (element n p v)"
  using table_polynomial(2) [of n p] py_max_Max [of p "int n"]
  by (simp add: GP_def init_default init_ok)

lemma GP_unsupported:
  "irreducible_polynomials n = None \<Longrightarrow> GP n v = Inl (AssertionError UnsupportedWidth)"
  by (simp add: GP_def GaloisPolynomial_init_def)

lemma gcm_config_facts:
  assumes "gcm_config self p"
  shows "irreducible_polynomials (num_bits self) = Some p"
    and "length (nonce self) + length (nonce self) = block_size (cipher self)"
    and "length (header self) \<le> block_size (cipher self)"
    and "\<And>b. length b = block_size (cipher self) \<Longrightarrow>
             length (encrypt_block (cipher self) b) = block_size (cipher self)"
    and "py_max p = Inr (int (num_bits self))" and "\<forall>e\<in>set p. 0 \<le> e"
    and "0 < num_bits self" and "0 < block_size (cipher self)"
    and "(256::int) ^ block_size (cipher self) = 2 ^ num_bits self"
    and "(256::int) ^ length (nonce self) = 2 ^ (num_bits self div 2)"
proof -
  from assms show t: "irreducible_polynomials (num_bits self) = Some p"
    and n: "length (nonce self) + length (nonce self) = block_size (cipher self)"
    and "length (header self) \<le> block_size (cipher self)"
    by (simp_all add: gcm_config_def)
  from assms show "\<And>b. length b = block_size (cipher self) \<Longrightarrow>
             length (encrypt_block (cipher self) b) = block_size (cipher self)"
    by (simp add: gcm_config_def)
  from table_polynomial [OF t] show "py_max p = Inr (int (num_bits self))"
    "\<forall>e\<in>set p. 0 \<le> e" and pos: "0 < num_bits self" by simp_all
  from pos show "0 < block_size (cipher self)" by (simp add: num_bits_def)
  show "(256::int) ^ block_size (cipher self) = 2 ^ num_bits self"
    by (simp add: num_bits_def pow256)
  have "num_bits self div 2 = 8 * length (nonce self)"
    using n by (simp add: num_bits_def)
  then show "(256::int) ^ length (nonce self) = 2 ^ (num_bits self div 2)"
    by (simp add: pow256)
qed

lemma small_below_power: "0 < n \<Longrightarrow> int n + 1 < 2 ^ (4 * n)"
proof -
  assume "0 < n"
  have "n < 2 ^ n" by (rule less_exp)
  then have "Suc n \<le> 2 ^ n" by (rule Suc_leI)
  then have "int (Suc n) \<le> int (2 ^ n)" by (simp only: of_nat_le_iff)
  then have "int n + 1 \<le> 2 ^ n" by simp
  also have "(2::int) ^ n < 2 ^ (4 * n)" using \<open>0 < n\<close> by simp
  finally show ?thesis .
qed

lemma extra_block_bounds:
  assumes cfg: "gcm_config self p" and c: "0 \<le> c" "c \<le> 256 ^ length (nonce self)"
  shows "0 \<le> extra_block self c" and "extra_block self c < 2 ^ num_bits self"
proof -
  note F = gcm_config_facts [OF cfg]
  let ?b = "block_size (cipher self)"
  let ?h = "num_bits self div 2"
  have h: "?h = 4 * ?b" "num_bits self = ?h + ?h" by (simp_all add: num_bits_def)
  show "0 \<le> extra_block self c" using c by (simp add: extra_block_def push_bit_eq_mult)
  have A: "int (length (header self)) * 2 ^ ?h \<le> int ?b * 2 ^ ?h"
    using F(3) by (simp add: mult_right_mono)
  have B: "c \<le> 2 ^ ?h" using c(2) F(10) by simp
  have C: "extra_block self c = int (length (header self)) * 2 ^ ?h + c"
    by (simp add: extra_block_def push_bit_eq_mult)
  have D: "(int ?b + 1) * 2 ^ ?h = int ?b * 2 ^ ?h + 2 ^ ?h" by (simp add: algebra_simps)
  have "extra_block self c \<le> (int ?b + 1) * 2 ^ ?h"
    unfolding C D using A B by linarith
  also have "\<dots> < 2 ^ ?h * 2 ^ ?h"
    using small_below_power [OF F(8)] h(1) by simp
  also have "\<dots> = 2 ^ num_bits self" using h(2) by (metis power_add)
  finally show "extra_block self c < 2 ^ num_bits self" .
qed

lemma gmac_bytes_ok:
  assumes cfg: "gcm_config self p"
      and r: "0 \<le> r" "r < 2 ^ num_bits self"
      and H: "0 \<le> H" "H < 2 ^ num_bits self"
      and K: "0 \<le> K" "K < 2 ^ num_bits self"
      and c: "0 \<le> c" "c \<le> 256 ^ length (nonce self)"
  shows "gmac_bytes self (element (num_bits self) p H) (element (num_bits self) p K)
           (element (num_bits self) p r) c
         = Inr (le_bytes (block_size (cipher self))
                  (gf_mult (num_bits self) p (r XOR extra_block self c) H XOR K))"
proof -
  note F = gcm_config_facts [OF cfg]
  let ?n = "num_bits self"
  let ?L = "extra_block self c"
  let ?g = "gf_mult ?n p (r XOR ?L) H"
  note L = extra_block_bounds [OF cfg c]
  have x1: "0 \<le> r XOR ?L" "r XOR ?L < 2 ^ ?n" using xor_bounds [OF r L] by simp_all
  have g: "0 \<le> ?g" "?g < 2 ^ ?n" using gf_mult_below [OF F(5) x1 H] by simp_all
  have x2: "0 \<le> ?g XOR K" "?g XOR K < 2 ^ ?n" using xor_bounds [OF g K] by simp_all
  have 1: "GP ?n ?L = Inr (element ?n p ?L)" by (rule GP_ok [OF F(1) L])
  have 2: "xor_gp (element ?n p r) (element ?n p ?L) = Inr (element ?n p (r XOR ?L))"
    by (rule xor_element [OF F(5)])
  have 3: "mult (element ?n p (r XOR ?L)) (element ?n p H) = Inr (element ?n p ?g)"
    by (rule mult_element [OF F(5,6) x1 H])
  have 4: "xor_gp (element ?n p ?g) (element ?n p K) = Inr (element ?n p (?g XOR K))"
    by (rule xor_element [OF F(5)])
  have 5: "intval (element ?n p (?g XOR K)) = Inr (?g XOR K)"
    by (rule intval_element [OF F(7) x2])
  have 6: "to_bytes_little (?g XOR K) (block_size (cipher self))
           = Inr (le_bytes (block_size (cipher self)) (?g XOR K))"
    using x2(2) g(1) K(1) F(9) by (simp add: to_bytes_little_def)
  show ?thesis unfolding gmac_bytes_def by (simp only: 1 2 3 4 5 6 bind_err_Inr)
qed

lemma ghash_bounds:
  assumes p: "py_max p = Inr (int n)" and H: "0 \<le> H" "H < 2 ^ n"
  shows "0 \<le> r \<Longrightarrow> r < 2 ^ n \<Longrightarrow> \<forall>c\<in>set cs. from_bytes_little c < 2 ^ n \<Longrightarrow>
         0 \<le> ghash n p H r cs \<and> ghash n p H r cs < 2 ^ n"
proof (induction cs arbitrary: r)
  case Nil
  then show ?case by simp
next
  case (Cons c cs)
  have c: "0 \<le> from_bytes_little c" "from_bytes_little c < 2 ^ n"
    using from_bytes_little_bounds [of c] Cons.prems(3) by simp_all
  have x: "0 \<le> r XOR from_bytes_little c" "r XOR from_bytes_little c < 2 ^ n"
    using xor_bounds [OF Cons.prems(1,2) c] by simp_all
  have "0 \<le> gf_mult n p (r XOR from_bytes_little c) H \<and>
        gf_mult n p (r XOR from_bytes_little c) H < 2 ^ n"
    by (rule gf_mult_below [OF p x H])
  with Cons.IH [of "gf_mult n p (r XOR from_bytes_little c) H"] Cons.prems(3)
  show ?case by simp
qed

lemma ghash_append:
  "ghash n p H r (cs @ [c]) = gf_mult n p (ghash n p H r cs XOR from_bytes_little c) H"
  by (induction cs arbitrary: r) auto

lemma block_value_bounds:
  assumes cfg: "gcm_config self p" and "length b = block_size (cipher self)"
  shows "0 \<le> from_bytes_little b" and "from_bytes_little b < 2 ^ num_bits self"
  using from_bytes_little_bounds [of b] assms(2) gcm_config_facts(9) [OF cfg] by simp_all

text \<open>One step of the two loops: the new accumulator.\<close>

lemma absorb_block:
  assumes cfg: "gcm_config self p"
      and r: "0 \<le> r" "r < 2 ^ num_bits self"
      and H: "0 \<le> H" "H < 2 ^ num_bits self"
      and b: "length ciphertext = block_size (cipher self)"
  shows "GP (num_bits self) (from_bytes_little ciphertext)
           = Inr (element (num_bits self) p (from_bytes_little ciphertext))"
    and "bind_err (xor_gp (element (num_bits self) p r)
                     (element (num_bits self) p (from_bytes_little ciphertext)))
           (\<lambda>t. mult t (element (num_bits self) p H))
         = Inr (element (num_bits self) p
                  (gf_mult (num_bits self) p (r XOR from_bytes_little ciphertext) H))"
proof -
  note F = gcm_config_facts [OF cfg]
  note C = block_value_bounds [OF cfg b]
  let ?n = "num_bits self"
  show "GP ?n (from_bytes_little ciphertext) = Inr (element ?n p (from_bytes_little ciphertext))"
    by (rule GP_ok [OF F(1) C])
  have x: "0 \<le> r XOR from_bytes_little ciphertext" "r XOR from_bytes_little ciphertext < 2 ^ ?n"
    using xor_bounds [OF r C] by simp_all
  have 1: "xor_gp (element ?n p r) (element ?n p (from_bytes_little ciphertext))
           = Inr (element ?n p (r XOR from_bytes_little ciphertext))"
    by (rule xor_element [OF F(5)])
  have 2: "mult (element ?n p (r XOR from_bytes_little ciphertext)) (element ?n p H)
           = Inr (element ?n p (gf_mult ?n p (r XOR from_bytes_little ciphertext) H))"
    by (rule mult_element [OF F(5,6) x H])
  show "bind_err (xor_gp (element ?n p r) (element ?n p (from_bytes_little ciphertext)))
           (\<lambda>t. mult t (element ?n p H))
         = Inr (element ?n p (gf_mult ?n p (r XOR from_bytes_little ciphertext) H))"
    by (simp only: 1 2 bind_err_Inr)
qed

lemma keystream_block_length:
  assumes cfg: "gcm_config self p" and d: "length d = block_size (cipher self)"
  shows "length (xor_mode d (encrypt_block (cipher self)
                   (nonce self @ rev (le_bytes (length (nonce self)) c))))
         = block_size (cipher self)"
  using gcm_config_facts(2,4) [OF cfg] d by simp

lemma gcm_encrypt_loop_ok:
  assumes cfg: "gcm_config self p"
      and H: "0 \<le> H" "H < 2 ^ num_bits self"
      and K: "0 \<le> K" "K < 2 ^ num_bits self"
  shows "0 \<le> r \<Longrightarrow> r < 2 ^ num_bits self \<Longrightarrow>
         \<forall>d\<in>set (map fst ps). length d = block_size (cipher self) \<Longrightarrow>
         0 \<le> c \<Longrightarrow> c + int (length ps) \<le> 256 ^ length (nonce self) \<Longrightarrow>
         gcm_encrypt_loop self (element (num_bits self) p H) (element (num_bits self) p K) ps
           (element (num_bits self) p r) c
         = (keystream_xor self c (map fst ps) @
              [le_bytes (block_size (cipher self))
                 (gf_mult (num_bits self) p
                    (ghash (num_bits self) p H r (keystream_xor self c (map fst ps))
                       XOR extra_block self (c + int (length ps))) H XOR K)],
            Inr ())"
proof (induction ps arbitrary: r c)
  case Nil
  then show ?case
    by (simp add: gmac_bytes_ok [OF cfg Nil.prems(1,2) H K])
next
  case (Cons a ps)
  note F = gcm_config_facts [OF cfg]
  obtain data eof where a: "a = (data, eof)" by (cases a)
  let ?n = "num_bits self"
  let ?ct = "xor_mode data (encrypt_block (cipher self)
                   (nonce self @ rev (le_bytes (length (nonce self)) c)))"
  let ?r = "gf_mult ?n p (r XOR from_bytes_little ?ct) H"
  from Cons.prems a have d: "length data = block_size (cipher self)" by simp
  have ct: "length ?ct = block_size (cipher self)" by (rule keystream_block_length [OF cfg d])
  from Cons.prems have c: "c < 256 ^ length (nonce self)" by simp
  have g: "get_xor_block self c = Inr (encrypt_block (cipher self)
                   (nonce self @ rev (le_bytes (length (nonce self)) c)))"
    by (rule get_xor_block_ok [OF F(2) Cons.prems(4) c])
  note ab = absorb_block [OF cfg Cons.prems(1,2) H ct]
  have rb: "0 \<le> ?r" "?r < 2 ^ ?n"
    using gf_mult_below [OF F(5) _ _ H, of "r XOR from_bytes_little ?ct"]
      xor_bounds [OF Cons.prems(1,2) block_value_bounds [OF cfg ct]] by simp_all
  have ih: "gcm_encrypt_loop self (element ?n p H) (element ?n p K) ps (element ?n p ?r) (c + 1)
         = (keystream_xor self (c + 1) (map fst ps) @
              [le_bytes (block_size (cipher self))
                 (gf_mult ?n p
                    (ghash ?n p H ?r (keystream_xor self (c + 1) (map fst ps))
                       XOR extra_block self (c + 1 + int (length ps))) H XOR K)],
            Inr ())"
    by (rule Cons.IH [OF rb]) (use Cons.prems in auto)
  have e: "c + 1 + int (length ps) = c + int (length (a # ps))" by simp
  show ?case
    unfolding a gcm_encrypt_loop.simps g try_gen_Inr Let_def ab ih
    by (simp add: e a)
qed

lemma gcm_decrypt_loop_ok:
  assumes cfg: "gcm_config self p"
      and H: "0 \<le> H" "H < 2 ^ num_bits self"
      and K: "0 \<le> K" "K < 2 ^ num_bits self"
  shows "0 \<le> r \<Longrightarrow> r < 2 ^ num_bits self \<Longrightarrow>
         \<forall>d\<in>set cts. length d = block_size (cipher self) \<Longrightarrow>
         0 \<le> c \<Longrightarrow> c + int (length cts) \<le> 256 ^ length (nonce self) \<Longrightarrow>
         gcm_decrypt_loop self (element (num_bits self) p H) (element (num_bits self) p K)
           (map (\<lambda>x. (x, False)) cts @ [(t, True)]) (element (num_bits self) p r) c last_ct
         = (keystream_xor self c cts,
            Inr (le_bytes (block_size (cipher self))
                   (gf_mult (num_bits self) p
                      (ghash (num_bits self) p H r cts
                         XOR extra_block self (c + int (length cts))) H XOR K) = t))"
proof (induction cts arbitrary: r c last_ct)
  case Nil
  then show ?case
    by (simp add: gmac_bytes_ok [OF cfg Nil.prems(1,2) H K])
next
  case (Cons ct cts)
  note F = gcm_config_facts [OF cfg]
  let ?n = "num_bits self"
  let ?r = "gf_mult ?n p (r XOR from_bytes_little ct) H"
  from Cons.prems have ct: "length ct = block_size (cipher self)" by simp
  from Cons.prems have c: "c < 256 ^ length (nonce self)" by simp
  have g: "get_xor_block self c = Inr (encrypt_block (cipher self)
                   (nonce self @ rev (le_bytes (length (nonce self)) c)))"
    by (rule get_xor_block_ok [OF F(2) Cons.prems(4) c])
  note ab = absorb_block [OF cfg Cons.prems(1,2) H ct]
  have rb: "0 \<le> ?r" "?r < 2 ^ ?n"
    using gf_mult_below [OF F(5) _ _ H, of "r XOR from_bytes_little ct"]
      xor_bounds [OF Cons.prems(1,2) block_value_bounds [OF cfg ct]] by simp_all
  have ih: "gcm_decrypt_loop self (element ?n p H) (element ?n p K)
              (map (\<lambda>x. (x, False)) cts @ [(t, True)]) (element ?n p ?r) (c + 1) (Some ct)
         = (keystream_xor self (c + 1) cts,
            Inr (le_bytes (block_size (cipher self))
                   (gf_mult ?n p
                      (ghash ?n p H ?r cts
                         XOR extra_block self (c + 1 + int (length cts))) H XOR K) = t))"
    by (rule Cons.IH [OF rb]) (use Cons.prems in auto)
  have e: "c + 1 + int (length cts) = c + int (length (ct # cts))" by simp
  have "gcm_decrypt_loop self (element ?n p H) (element ?n p K)
          ((ct, False) # (map (\<lambda>x. (x, False)) cts @ [(t, True)])) (element ?n p r) c last_ct
        = (xor_mode ct (encrypt_block (cipher self)
                   (nonce self @ rev (le_bytes (length (nonce self)) c)))
             # keystream_xor self (c + 1) cts,
           Inr (le_bytes (block_size (cipher self))
                   (gf_mult ?n p
                      (ghash ?n p H ?r cts
                         XOR extra_block self (c + 1 + int (length cts))) H XOR K) = t))"
    unfolding gcm_decrypt_loop.simps g try_gen_Inr Let_def ab ih by simp
  then show ?case by (simp add: e)
qed

lemma to_bytes_little_zero: "to_bytes_little 0 n = Inr (le_bytes n 0)"
proof -
  have "\<not> (256::int) ^ n \<le> 0" using zero_less_power [of "256::int" n] by linarith
  then show ?thesis by (simp add: to_bytes_little_def)
qed

lemma header_value_bounds:
  assumes cfg: "gcm_config self p" and "length h \<le> block_size (cipher self)"
  shows "0 \<le> from_bytes_little h" and "from_bytes_little h < 2 ^ num_bits self"
    and "from_bytes_little h < 256 ^ block_size (cipher self)"
proof -
  have le: "(256::int) ^ length h \<le> 256 ^ block_size (cipher self)"
    by (rule power_increasing [OF assms(2)]) simp
  from from_bytes_little_bounds [of h] show "0 \<le> from_bytes_little h" by simp
  from from_bytes_little_bounds [of h] le
  show "from_bytes_little h < 256 ^ block_size (cipher self)" by linarith
  then show "from_bytes_little h < 2 ^ num_bits self"
    using gcm_config_facts(9) [OF cfg] by simp
qed

lemma gcm_keys:
  assumes cfg: "gcm_config self p"
  shows "0 \<le> hash_key self" and "hash_key self < 2 ^ num_bits self"
    and "0 \<le> nonce_mask self" and "nonce_mask self < 2 ^ num_bits self"
    and "get_xor_block self 0 =
           Inr (encrypt_block (cipher self) (nonce self @ rev (le_bytes (length (nonce self)) 0)))"
proof -
  note F = gcm_config_facts [OF cfg]
  have 1: "length (encrypt_block (cipher self) (le_bytes (block_size (cipher self)) 0))
           = block_size (cipher self)"
    by (rule F(4)) simp
  have 2: "length (encrypt_block (cipher self)
             (nonce self @ rev (le_bytes (length (nonce self)) 0))) = block_size (cipher self)"
    by (rule F(4)) (use F(2) in simp)
  from block_value_bounds [OF cfg 1] show "0 \<le> hash_key self" "hash_key self < 2 ^ num_bits self"
    by (simp_all add: hash_key_def)
  from block_value_bounds [OF cfg 2] show "0 \<le> nonce_mask self" "nonce_mask self < 2 ^ num_bits self"
    by (simp_all add: nonce_mask_def)
  show "get_xor_block self 0 =
           Inr (encrypt_block (cipher self) (nonce self @ rev (le_bytes (length (nonce self)) 0)))"
    by (rule get_xor_block_ok [OF F(2)]) simp_all
qed

lemma gcm_encrypt_ok:
  assumes cfg: "gcm_config self p"
      and pt: "\<forall>d\<in>set pt. length d = block_size (cipher self)"
      and n: "1 + int (length pt) \<le> 256 ^ length (nonce self)"
  shows "GCM_encrypt self pt =
           (le_bytes (block_size (cipher self)) (from_bytes_little (header self))
              # keystream_xor self 1 pt
              @ [gcm_tag self p (from_bytes_little (header self)) (keystream_xor self 1 pt)
                   (extra_block self (1 + int (length pt)))],
            Inr ())"
proof -
  note F = gcm_config_facts [OF cfg]
  note Kf = gcm_keys [OF cfg]
  note A = header_value_bounds [OF cfg F(3)]
  let ?n = "num_bits self"
  let ?H = "hash_key self" and ?K = "nonce_mask self"
  let ?A = "from_bytes_little (header self)"
  have ek: "GP ?n (from_bytes_little (encrypt_block (cipher self)
              (nonce self @ rev (le_bytes (length (nonce self)) 0)))) = Inr (element ?n p ?K)"
    using GP_ok [OF F(1) Kf(3,4)] by (simp add: nonce_mask_def)
  have a: "GP ?n ?A = Inr (element ?n p ?A)" by (rule GP_ok [OF F(1) A(1,2)])
  have hb: "to_bytes_little ?A (block_size (cipher self)) = Inr (le_bytes (block_size (cipher self)) ?A)"
    using A by (simp add: to_bytes_little_def)
  have z: "to_bytes_little 0 (block_size (cipher self)) = Inr (le_bytes (block_size (cipher self)) 0)"
    by (rule to_bytes_little_zero)
  have h: "GP ?n (from_bytes_little (encrypt_block (cipher self)
              (le_bytes (block_size (cipher self)) 0))) = Inr (element ?n p ?H)"
    using GP_ok [OF F(1) Kf(1,2)] by (simp add: hash_key_def)
  have m: "mult (element ?n p ?A) (element ?n p ?H) = Inr (element ?n p (gf_mult ?n p ?A ?H))"
    by (rule mult_element [OF F(5,6) A(1,2) Kf(1,2)])
  have r: "0 \<le> gf_mult ?n p ?A ?H" "gf_mult ?n p ?A ?H < 2 ^ ?n"
    using gf_mult_below [OF F(5) A(1,2) Kf(1,2)] by simp_all
  have loop: "gcm_encrypt_loop self (element ?n p ?H) (element ?n p ?K) (eof_signal_iterator pt)
                (element ?n p (gf_mult ?n p ?A ?H)) 1
              = (keystream_xor self 1 pt @
                   [le_bytes (block_size (cipher self))
                      (gf_mult ?n p
                         (ghash ?n p ?H (gf_mult ?n p ?A ?H) (keystream_xor self 1 pt)
                            XOR extra_block self (1 + int (length pt))) ?H XOR ?K)],
                 Inr ())"
    using gcm_encrypt_loop_ok [OF cfg Kf(1,2,3,4) r, of "eof_signal_iterator pt" 1] pt n
    by simp
  show ?thesis
    unfolding GCM_encrypt_def Kf(5) try_gen_Inr ek
    using F(3) by (simp add: a hb z h m loop gcm_tag_def)
qed

lemma gcm_decrypt_ok:
  assumes cfg: "gcm_config self p"
      and hb: "length hb = block_size (cipher self)"
      and cts: "\<forall>d\<in>set cts. length d = block_size (cipher self)"
      and n: "1 + int (length cts) \<le> 256 ^ length (nonce self)"
  shows "GCM_decrypt self (hb # cts @ [t]) =
           (keystream_xor self 1 cts,
            Inr (gcm_tag self p (from_bytes_little hb) cts
                   (extra_block self (1 + int (length cts))) = t))"
proof -
  note F = gcm_config_facts [OF cfg]
  note Kf = gcm_keys [OF cfg]
  note A = block_value_bounds [OF cfg hb]
  let ?n = "num_bits self"
  let ?H = "hash_key self" and ?K = "nonce_mask self"
  let ?A = "from_bytes_little hb"
  have ek: "GP ?n (from_bytes_little (encrypt_block (cipher self)
              (nonce self @ rev (le_bytes (length (nonce self)) 0)))) = Inr (element ?n p ?K)"
    using GP_ok [OF F(1) Kf(3,4)] by (simp add: nonce_mask_def)
  have it: "eof_signal_iterator (hb # cts @ [t])
            = (hb, False) # (map (\<lambda>x. (x, False)) cts @ [(t, True)])"
    by (simp add: eof_Cons eof_snoc)
  have a: "GP ?n ?A = Inr (element ?n p ?A)" by (rule GP_ok [OF F(1) A(1,2)])
  have z: "to_bytes_little 0 (block_size (cipher self)) = Inr (le_bytes (block_size (cipher self)) 0)"
    by (rule to_bytes_little_zero)
  have h: "GP ?n (from_bytes_little (encrypt_block (cipher self)
              (le_bytes (block_size (cipher self)) 0))) = Inr (element ?n p ?H)"
    using GP_ok [OF F(1) Kf(1,2)] by (simp add: hash_key_def)
  have m: "mult (element ?n p ?A) (element ?n p ?H) = Inr (element ?n p (gf_mult ?n p ?A ?H))"
    by (rule mult_element [OF F(5,6) A(1,2) Kf(1,2)])
  have r: "0 \<le> gf_mult ?n p ?A ?H" "gf_mult ?n p ?A ?H < 2 ^ ?n"
    using gf_mult_below [OF F(5) A(1,2) Kf(1,2)] by simp_all
  have loop: "gcm_decrypt_loop self (element ?n p ?H) (element ?n p ?K)
                (map (\<lambda>x. (x, False)) cts @ [(t, True)])
                (element ?n p (gf_mult ?n p ?A ?H)) 1 None
              = (keystream_xor self 1 cts,
                 Inr (le_bytes (block_size (cipher self))
                        (gf_mult ?n p
                           (ghash ?n p ?H (gf_mult ?n p ?A ?H) cts
                              XOR extra_block self (1 + int (length cts))) ?H XOR ?K) = t))"
    by (rule gcm_decrypt_loop_ok [OF cfg Kf(1,2,3,4) r cts _ n]) simp
  show ?thesis
    unfolding GCM_decrypt_def Kf(5) try_gen_Inr ek it
    by (simp add: a z h m loop gcm_tag_def)
qed

lemma gcm_roundtrip:
  assumes cfg: "gcm_config self p"
      and pt: "\<forall>d\<in>set pt. length d = block_size (cipher self)"
      and n: "1 + int (length pt) \<le> 256 ^ length (nonce self)"
  shows "GCM_decrypt self (fst (GCM_encrypt self pt)) = (pt, Inr True)"
proof -
  note F = gcm_config_facts [OF cfg]
  note A = header_value_bounds [OF cfg F(3)]
  let ?hb = "le_bytes (block_size (cipher self)) (from_bytes_little (header self))"
  let ?cts = "keystream_xor self 1 pt"
  let ?t = "gcm_tag self p (from_bytes_little (header self)) ?cts
              (extra_block self (1 + int (length pt)))"
  have enc: "fst (GCM_encrypt self pt) = ?hb # ?cts @ [?t]"
    by (simp add: gcm_encrypt_ok [OF cfg pt n])
  from keystream_xor_involution [OF _ F(2) pt, of 1] F(4)
  have inv: "keystream_xor self 1 ?cts = pt" "\<forall>d\<in>set ?cts. length d = block_size (cipher self)"
    by simp_all
  have hv: "from_bytes_little ?hb = from_bytes_little (header self)"
    by (rule from_bytes_le_bytes [OF A(1,3)])
  have len: "1 + int (length ?cts) \<le> 256 ^ length (nonce self)" using n by simp
  have "GCM_decrypt self (?hb # ?cts @ [?t]) =
          (keystream_xor self 1 ?cts,
           Inr (gcm_tag self p (from_bytes_little ?hb) ?cts
                  (extra_block self (1 + int (length ?cts))) = ?t))"
    by (rule gcm_decrypt_ok [OF cfg _ inv(2) len]) simp
  then show ?thesis unfolding enc by (simp add: inv(1) hv)
qed

lemma example_gcm_config: "gcm_config (example_gcm 8 [1, 2, 3, 4] [5, 6]) [64, 4, 3, 1, 0]"
  by (simp add: gcm_config_def example_gcm_def example_cipher_def num_bits_def
        irreducible_polynomials_def)

lemma keystream_xor_twice:
  assumes "\<forall>b. length b = block_size (cipher self) \<longrightarrow>
             length (encrypt_block (cipher self) b) = block_size (cipher self)"
      and "length (nonce self) + length (nonce self) = block_size (cipher self)"
  shows "\<forall>d\<in>set ds. length d \<le> block_size (cipher self) \<Longrightarrow>
         keystream_xor self c (keystream_xor self c ds) = ds"
proof (induction ds arbitrary: c)
  case Nil
  then show ?case by simp
next
  case (Cons d ds)
  let ?k = "encrypt_block (cipher self) (nonce self @ rev (le_bytes (length (nonce self)) c))"
  have k: "length ?k = block_size (cipher self)" using assms by simp
  with Cons.prems have "xor_mode (xor_mode d ?k) ?k = d"
    by (simp add: xor_mode_involution)
  with Cons show ?case by simp
qed

section \<open>Claims about the modes\<close>

text \<open>
  C1, as amended. For every GCM session the code accepts (\<open>gcm_config\<close>: a block size of 8,
  16, 32 or 64 bytes, so that \<open>8 * block_size\<close> is a width of the table; a nonce of half a
  block; a header of at most one block; a cipher that returns a block for a block), and
  every plaintext of full blocks whose number, plus one, fits the counter field
  (\<open>1 + n \<le> 256 ^ len(nonce)\<close>), \<open>GCM_encrypt\<close> ends normally, and \<open>GCM_decrypt\<close> on the
  elements it yielded yields exactly the plaintext blocks and reports success.
  The claim as stated, for every cipher, fails: with a block size of 2 bytes the field
  constructor rejects the width 16 and \<open>GCM_encrypt\<close> raises before it yields anything.
\<close>

theorem gcm_decrypt_encrypt:
  "gcm_config self p \<Longrightarrow>
   \<forall>d\<in>set plaintext. length d = block_size (cipher self) \<Longrightarrow>
   1 + int (length plaintext) \<le> 256 ^ length (nonce self) \<Longrightarrow>
   snd (GCM_encrypt self plaintext) = Inr () \<and>
   GCM_decrypt self (fst (GCM_encrypt self plaintext)) = (plaintext, Inr True)"
  using gcm_roundtrip [of self p plaintext] gcm_encrypt_ok [of self p plaintext] by simp

theorem gcm_decrypt_encrypt_witness:
  "snd (GCM_encrypt (example_gcm 8 [1, 2, 3, 4] [5, 6]) [[1, 2, 3, 4, 5, 6, 7, 8]]) = Inr () \<and>
   GCM_decrypt (example_gcm 8 [1, 2, 3, 4] [5, 6])
     (fst (GCM_encrypt (example_gcm 8 [1, 2, 3, 4] [5, 6]) [[1, 2, 3, 4, 5, 6, 7, 8]]))
   = ([[1, 2, 3, 4, 5, 6, 7, 8]], Inr True)"
  using gcm_decrypt_encrypt [OF example_gcm_config, of "[[1, 2, 3, 4, 5, 6, 7, 8]]"]
  by (simp add: example_gcm_def example_cipher_def)

theorem gcm_decrypt_encrypt_counterexample:
  "length (nonce (example_gcm 2 [7] [])) = block_size (cipher (example_gcm 2 [7] [])) div 2 \<and>
   length (header (example_gcm 2 [7] [])) \<le> block_size (cipher (example_gcm 2 [7] [])) \<and>
   length [1, 2 :: byte] = block_size (cipher (example_gcm 2 [7] [])) \<and>
   decrypt_block (cipher (example_gcm 2 [7] []))
     (encrypt_block (cipher (example_gcm 2 [7] [])) [1, 2]) = [1, 2] \<and>
   GCM_encrypt (example_gcm 2 [7] []) [[1, 2]] = ([], Inl (AssertionError UnsupportedWidth)) \<and>
   GCM_decrypt (example_gcm 2 [7] []) (fst (GCM_encrypt (example_gcm 2 [7] []) [[1, 2]]))
     \<noteq> ([[1, 2]], Inr True)"
proof -
  let ?s = "example_gcm 2 [7] []"
  have n: "num_bits ?s = 16" by (simp add: num_bits_def example_gcm_def example_cipher_def)
  have g: "get_xor_block ?s 0 = Inr [8, 1]"
    by (simp add: get_xor_block_def to_bytes_big_def example_gcm_def example_cipher_def)
  have u: "GP 16 v = Inl (AssertionError UnsupportedWidth)" for v
    by (rule GP_unsupported) (simp add: irreducible_polynomials_def)
  have e: "GCM_encrypt ?s [[1, 2]] = ([], Inl (AssertionError UnsupportedWidth))"
    unfolding GCM_encrypt_def g n try_gen_Inr u by simp
  have d: "GCM_decrypt ?s [] = ([], Inl (AssertionError UnsupportedWidth))"
    unfolding GCM_decrypt_def g n try_gen_Inr u by simp
  show ?thesis unfolding e using d by (simp add: example_gcm_def example_cipher_def)
qed

text \<open>
  C4, as amended. In the finalization on encrypt and on decrypt, the length element is
  \<open>(len(header) << (num_bits / 2)) + counter\<close>, where \<open>counter\<close> is one more than the number of
  data blocks processed (it starts at 1) and \<open>header\<close> is the header of the session; the
  tag is \<open>(accumulator XOR length element) * H XOR EK_nonce\<close>, one full block, emitted last
  by encrypt and compared with the last input element by decrypt.
  The claim as stated has the number of data blocks in place of the counter: for one data
  block and a 2-byte header over 8-byte blocks the code uses 8589934594, not 8589934593,
  and the two tags differ.
\<close>

theorem gcm_finalization:
  "gcm_config self p \<Longrightarrow>
   \<forall>d\<in>set blocks. length d = block_size (cipher self) \<Longrightarrow>
   1 + int (length blocks) \<le> 256 ^ length (nonce self) \<Longrightarrow>
   length first = block_size (cipher self) \<Longrightarrow>
   extra_block self (1 + int (length blocks))
     = push_bit (num_bits self div 2) (int (length (header self))) + (int (length blocks) + 1) \<and>
   (\<exists>hb cts tag.
      GCM_encrypt self blocks = (hb # cts @ [tag], Inr ()) \<and>
      length cts = length blocks \<and> length tag = block_size (cipher self) \<and>
      tag = le_bytes (block_size (cipher self))
              (gf_mult (num_bits self) p
                 (ghash (num_bits self) p (hash_key self)
                    (gf_mult (num_bits self) p (from_bytes_little (header self)) (hash_key self))
                    cts
                  XOR extra_block self (1 + int (length blocks)))
                 (hash_key self)
               XOR nonce_mask self)) \<and>
   (\<exists>out.
      GCM_decrypt self (first # blocks @ [t]) =
        (out,
         Inr (le_bytes (block_size (cipher self))
                (gf_mult (num_bits self) p
                   (ghash (num_bits self) p (hash_key self)
                      (gf_mult (num_bits self) p (from_bytes_little first) (hash_key self))
                      blocks
                    XOR extra_block self (1 + int (length blocks)))
                   (hash_key self)
                 XOR nonce_mask self) = t)))"
proof (intro conjI)
  assume cfg: "gcm_config self p"
    and b: "\<forall>d\<in>set blocks. length d = block_size (cipher self)"
    and n: "1 + int (length blocks) \<le> 256 ^ length (nonce self)"
    and f: "length first = block_size (cipher self)"
  show "extra_block self (1 + int (length blocks))
     = push_bit (num_bits self div 2) (int (length (header self))) + (int (length blocks) + 1)"
    by (simp add: extra_block_def)
  show "\<exists>hb cts tag.
      GCM_encrypt self blocks = (hb # cts @ [tag], Inr ()) \<and>
      length cts = length blocks \<and> length tag = block_size (cipher self) \<and>
      tag = le_bytes (block_size (cipher self))
              (gf_mult (num_bits self) p
                 (ghash (num_bits self) p (hash_key self)
                    (gf_mult (num_bits self) p (from_bytes_little (header self)) (hash_key self))
                    cts
                  XOR extra_block self (1 + int (length blocks)))
                 (hash_key self)
               XOR nonce_mask self)"
    using gcm_encrypt_ok [OF cfg b n] by (simp add: gcm_tag_def)
  show "\<exists>out.
      GCM_decrypt self (first # blocks @ [t]) =
        (out,
         Inr (le_bytes (block_size (cipher self))
                (gf_mult (num_bits self) p
                   (ghash (num_bits self) p (hash_key self)
                      (gf_mult (num_bits self) p (from_bytes_little first) (hash_key self))
                      blocks
                    XOR extra_block self (1 + int (length blocks)))
                   (hash_key self)
                 XOR nonce_mask self) = t))"
    using gcm_decrypt_ok [OF cfg f b n, of t] by (simp add: gcm_tag_def)
qed

theorem gcm_finalization_witness:
  "extra_block (example_gcm 8 [1, 2, 3, 4] [5, 6]) 2 = 8589934594 \<and>
   (\<exists>hb cts tag.
      GCM_encrypt (example_gcm 8 [1, 2, 3, 4] [5, 6]) [[1, 2, 3, 4, 5, 6, 7, 8]]
        = (hb # cts @ [tag], Inr ()) \<and>
      length cts = 1 \<and> length tag = 8) \<and>
   (\<exists>out v.
      GCM_decrypt (example_gcm 8 [1, 2, 3, 4] [5, 6])
        [[5, 6, 0, 0, 0, 0, 0, 0], [3, 1, 7, 1, 4, 7, 6, 10], [0, 0, 0, 0, 0, 0, 0, 0]]
        = (out, Inr v))"
proof -
  let ?s = "example_gcm 8 [1, 2, 3, 4] [5, 6]"
  have h: "\<forall>d\<in>set [[1, 2, 3, 4, 5, 6, 7, 8 :: byte]]. length d = block_size (cipher ?s)"
    "1 + int (length [[1, 2, 3, 4, 5, 6, 7, 8 :: byte]]) \<le> 256 ^ length (nonce ?s)"
    "length [5, 6, 0, 0, 0, 0, 0, 0 :: byte] = block_size (cipher ?s)"
    by (simp_all add: example_gcm_def example_cipher_def)
  have hh: "\<forall>d\<in>set [[3, 1, 7, 1, 4, 7, 6, 10 :: byte]]. length d = block_size (cipher ?s)"
    "1 + int (length [[3, 1, 7, 1, 4, 7, 6, 10 :: byte]]) \<le> 256 ^ length (nonce ?s)"
    by (simp_all add: example_gcm_def example_cipher_def)
  have e: "extra_block ?s 2 = 8589934594"
    by (simp add: extra_block_def num_bits_def example_gcm_def example_cipher_def)
  from gcm_finalization [OF example_gcm_config h, of "[0, 0, 0, 0, 0, 0, 0, 0]"]
  have 1: "\<exists>hb cts tag.
      GCM_encrypt ?s [[1, 2, 3, 4, 5, 6, 7, 8]] = (hb # cts @ [tag], Inr ()) \<and>
      length cts = 1 \<and> length tag = 8"
    by (auto simp: example_gcm_def example_cipher_def)
  from gcm_finalization [OF example_gcm_config hh h(3), of "[0, 0, 0, 0, 0, 0, 0, 0]"]
  have 2: "\<exists>out v.
      GCM_decrypt ?s
        [[5, 6, 0, 0, 0, 0, 0, 0], [3, 1, 7, 1, 4, 7, 6, 10], [0, 0, 0, 0, 0, 0, 0, 0]]
        = (out, Inr v)"
    by auto
  from e 1 2 show ?thesis by blast
qed

theorem gcm_finalization_counterexample:
  "extra_block (example_gcm 8 [1, 2, 3, 4] [5, 6]) (1 + 1) = 8589934594 \<and>
   claimed_length_block (example_gcm 8 [1, 2, 3, 4] [5, 6]) 1 = 8589934593 \<and>
   GCM_encrypt (example_gcm 8 [1, 2, 3, 4] [5, 6]) [[1, 2, 3, 4, 5, 6, 7, 8]]
     = ([[5, 6, 0, 0, 0, 0, 0, 0], [3, 1, 7, 1, 4, 7, 6, 10],
         gcm_tag (example_gcm 8 [1, 2, 3, 4] [5, 6]) [64, 4, 3, 1, 0] (from_bytes_little [5, 6])
           [[3, 1, 7, 1, 4, 7, 6, 10]] (extra_block (example_gcm 8 [1, 2, 3, 4] [5, 6]) (1 + 1))],
        Inr ()) \<and>
   gcm_tag (example_gcm 8 [1, 2, 3, 4] [5, 6]) [64, 4, 3, 1, 0] (from_bytes_little [5, 6])
     [[3, 1, 7, 1, 4, 7, 6, 10]] (extra_block (example_gcm 8 [1, 2, 3, 4] [5, 6]) (1 + 1))
     = [106, 105, 112, 226, 159, 196, 206, 164] \<and>
   gcm_tag (example_gcm 8 [1, 2, 3, 4] [5, 6]) [64, 4, 3, 1, 0] (from_bytes_little [5, 6])
     [[3, 1, 7, 1, 4, 7, 6, 10]] (claimed_length_block (example_gcm 8 [1, 2, 3, 4] [5, 6]) 1)
     = [105, 106, 115, 225, 156, 199, 205, 167]"
proof -
  let ?s = "example_gcm 8 [1, 2, 3, 4] [5, 6]"
  have h: "\<forall>d\<in>set [[1, 2, 3, 4, 5, 6, 7, 8 :: byte]]. length d = block_size (cipher ?s)"
    "1 + int (length [[1, 2, 3, 4, 5, 6, 7, 8 :: byte]]) \<le> 256 ^ length (nonce ?s)"
    by (simp_all add: example_gcm_def example_cipher_def)
  have 1: "extra_block ?s (1 + 1) = 8589934594"
    by (simp add: extra_block_def num_bits_def example_gcm_def example_cipher_def)
  have 2: "claimed_length_block ?s 1 = 8589934593"
    by code_simp
  have hd: "header ?s = [5, 6]" by (simp add: example_gcm_def)
  have ks: "keystream_xor ?s 1 [[1, 2, 3, 4, 5, 6, 7, 8]] = [[3, 1, 7, 1, 4, 7, 6, 10]]"
    by code_simp
  have hb: "le_bytes (block_size (cipher ?s)) (from_bytes_little [5, 6]) = [5, 6, 0, 0, 0, 0, 0, 0]"
    by code_simp
  have 3: "GCM_encrypt ?s [[1, 2, 3, 4, 5, 6, 7, 8]]
     = ([[5, 6, 0, 0, 0, 0, 0, 0], [3, 1, 7, 1, 4, 7, 6, 10],
         gcm_tag ?s [64, 4, 3, 1, 0] (from_bytes_little [5, 6])
           [[3, 1, 7, 1, 4, 7, 6, 10]] (extra_block ?s (1 + 1))],
        Inr ())"
    using gcm_encrypt_ok [OF example_gcm_config h] unfolding hd ks hb by simp
  have 4: "gcm_tag ?s [64, 4, 3, 1, 0] (from_bytes_little [5, 6])
     [[3, 1, 7, 1, 4, 7, 6, 10]] (extra_block ?s (1 + 1))
     = [106, 105, 112, 226, 159, 196, 206, 164]"
    by code_simp
  have 5: "gcm_tag ?s [64, 4, 3, 1, 0] (from_bytes_little [5, 6])
     [[3, 1, 7, 1, 4, 7, 6, 10]] (claimed_length_block ?s 1)
     = [105, 106, 115, 225, 156, 199, 205, 167]"
    by code_simp
  from 1 2 3 4 5 show ?thesis by (intro conjI)
qed

text \<open>
  C5, as amended. The counter field is as wide as the nonce. For a CTR session whose nonce
  is half a block (\<open>len(nonce) + len(nonce) = block_size\<close>, so that this width is
  \<open>block_size - len(nonce)\<close>) and an input of at most \<open>256 ^ len(nonce)\<close> chunks, the
  generator ends normally with one output per chunk, and output \<open>i\<close> is chunk \<open>i\<close> XOR
  \<open>encrypt_block (nonce @ big-endian i)\<close>, cut to the length of the chunk. A session with
  \<open>len(nonce) + len(nonce) \<noteq> block_size\<close> fails on its first chunk, on the assertion of
  line 137.
  The claim as stated gives the counter field \<open>block_size - len(nonce)\<close> bytes for every
  session: with a 3-byte nonce and 8-byte blocks that is 5 bytes and a full block, yet the
  code raises.
\<close>

theorem ctr_keystream:
  "(length (nonce self) + length (nonce self) = block_size (cipher self) \<and>
    int (length xs) \<le> 256 ^ length (nonce self) \<longrightarrow>
      (\<exists>out. CTR_encrypt self xs = (out, Inr ()) \<and> length out = length xs \<and>
         (\<forall>i<length xs. \<exists>counter_bytes.
            to_bytes_big (int i) (block_size (cipher self) - length (nonce self))
              = Inr counter_bytes \<and>
            length (nonce self @ counter_bytes) = block_size (cipher self) \<and>
            out ! i = xor_mode (xs ! i)
                        (take (length (xs ! i))
                           (encrypt_block (cipher self) (nonce self @ counter_bytes)))))) \<and>
   (length (nonce self) + length (nonce self) \<noteq> block_size (cipher self) \<and> xs \<noteq> [] \<longrightarrow>
      CTR_encrypt self xs = ([], Inl (AssertionError NonceCounterSize)))"
proof (intro conjI impI)
  let ?w = "length (nonce self)"
  assume h: "?w + ?w = block_size (cipher self) \<and> int (length xs) \<le> 256 ^ ?w"
  then have w: "block_size (cipher self) - ?w = ?w" by linarith
  from h have enc: "CTR_encrypt self xs = (keystream_xor self 0 xs, Inr ())"
    unfolding CTR_encrypt_def using ctr_loop_ok [of self 0 "eof_signal_iterator xs"] by simp
  have "\<exists>counter_bytes.
            to_bytes_big (int i) (block_size (cipher self) - ?w) = Inr counter_bytes \<and>
            length (nonce self @ counter_bytes) = block_size (cipher self) \<and>
            keystream_xor self 0 xs ! i = xor_mode (xs ! i)
                        (take (length (xs ! i))
                           (encrypt_block (cipher self) (nonce self @ counter_bytes)))"
    if i: "i < length xs" for i
  proof -
    from i h have "int i < 256 ^ ?w" by simp
    then have "to_bytes_big (int i) (block_size (cipher self) - ?w) = Inr (rev (le_bytes ?w (int i)))"
      unfolding w by (intro to_bytes_big_ok) simp_all
    moreover have "length (nonce self @ rev (le_bytes ?w (int i))) = block_size (cipher self)"
      using h by simp
    moreover have "keystream_xor self 0 xs ! i = xor_mode (xs ! i)
                        (take (length (xs ! i))
                           (encrypt_block (cipher self) (nonce self @ rev (le_bytes ?w (int i)))))"
      using keystream_xor_nth [OF i, of self 0] by (simp add: xor_mode_take)
    ultimately show ?thesis by blast
  qed
  with enc show "\<exists>out. CTR_encrypt self xs = (out, Inr ()) \<and> length out = length xs \<and>
         (\<forall>i<length xs. \<exists>counter_bytes.
            to_bytes_big (int i) (block_size (cipher self) - length (nonce self))
              = Inr counter_bytes \<and>
            length (nonce self @ counter_bytes) = block_size (cipher self) \<and>
            out ! i = xor_mode (xs ! i)
                        (take (length (xs ! i))
                           (encrypt_block (cipher self) (nonce self @ counter_bytes))))"
    by simp
next
  assume "length (nonce self) + length (nonce self) \<noteq> block_size (cipher self) \<and> xs \<noteq> []"
  then show "CTR_encrypt self xs = ([], Inl (AssertionError NonceCounterSize))"
    unfolding CTR_encrypt_def using ctr_loop_size [of self "eof_signal_iterator xs"] by simp
qed

theorem ctr_keystream_witness:
  "(\<exists>out. CTR_encrypt (example_ctr 2 [7]) [[1, 2], [3]] = (out, Inr ()) \<and> length out = 2) \<and>
   CTR_encrypt (example_ctr 8 [1, 2, 3]) [[1, 2, 3, 4, 5, 6, 7, 8]]
     = ([], Inl (AssertionError NonceCounterSize))"
  using ctr_keystream [of "example_ctr 2 [7]" "[[1, 2], [3]]"]
    ctr_keystream [of "example_ctr 8 [1, 2, 3]" "[[1, 2, 3, 4, 5, 6, 7, 8]]"]
  by (auto simp: example_ctr_def example_cipher_def)

theorem ctr_keystream_counterexample:
  "length (nonce (example_ctr 8 [1, 2, 3]))
     + (block_size (cipher (example_ctr 8 [1, 2, 3])) - length (nonce (example_ctr 8 [1, 2, 3])))
     = block_size (cipher (example_ctr 8 [1, 2, 3])) \<and>
   to_bytes_big 0 (block_size (cipher (example_ctr 8 [1, 2, 3]))
                     - length (nonce (example_ctr 8 [1, 2, 3]))) = Inr [0, 0, 0, 0, 0] \<and>
   CTR_encrypt (example_ctr 8 [1, 2, 3]) [[1, 2, 3, 4, 5, 6, 7, 8]]
     = ([], Inl (AssertionError NonceCounterSize))"
  by (simp add: CTR_encrypt_def get_xor_block_def to_bytes_big_def example_ctr_def
        example_cipher_def eval_nat_numeral)

text \<open>
  C6. The first element a fresh CBC session yields on encrypt, for a non-empty input, is
  the IV. On decrypt the first input element is the initial chaining value only: there
  is one output per later element, output \<open>i\<close> being \<open>decrypt_block\<close> of input \<open>i + 1\<close> XOR
  input \<open>i\<close> (with the padding removed from the last), so the first element is neither
  decrypted nor emitted.
\<close>

theorem cbc_iv_framing:
  "(xs \<noteq> [] \<longrightarrow> (\<exists>rest r. CBC_encrypt (CBC_init c v p) xs = (v # rest, r))) \<and>
   (\<exists>outs. CBC_decrypt self (first # cs) = (outs, Inr (Some (last (first # cs)))) \<and>
           length outs = length cs \<and>
           (\<forall>i<length cs.
              outs ! i =
                (if Suc i = length cs then remove (padding_scheme self) else id)
                  (xor_mode (decrypt_block (cipher self) (cs ! i)) ((first # cs) ! i))))"
proof
  show "xs \<noteq> [] \<longrightarrow> (\<exists>rest r. CBC_encrypt (CBC_init c v p) xs = (v # rest, r))"
  proof
    assume "xs \<noteq> []"
    then have "eof_signal_iterator xs \<noteq> []" by simp
    from cbc_encrypt_loop_first [OF this, of "CBC_init c v p"]
    show "\<exists>rest r. CBC_encrypt (CBC_init c v p) xs = (v # rest, r)"
      by (simp add: CBC_encrypt_def CBC_init_def)
  qed
next
  let ?ps = "eof_signal_iterator cs"
  have d: "CBC_decrypt self (first # cs) = cbc_decrypt_loop self ?ps first"
    by (simp add: CBC_decrypt_def eof_Cons)
  from cbc_decrypt_loop_spec [of self ?ps first] obtain outs where
    o: "cbc_decrypt_loop self ?ps first = (outs, Inr (Some (last (first # map fst ?ps))))"
       "length outs = length ?ps"
       "\<forall>i<length ?ps. outs ! i =
               (if snd (?ps ! i) then remove (padding_scheme self) else id)
                 (xor_mode (decrypt_block (cipher self) (fst (?ps ! i))) ((first # map fst ?ps) ! i))"
    by blast
  have "\<forall>i<length cs. outs ! i =
                (if Suc i = length cs then remove (padding_scheme self) else id)
                  (xor_mode (decrypt_block (cipher self) (cs ! i)) ((first # cs) ! i))"
    using o(3) by (simp add: eof_nth)
  with d o(1,2) show "\<exists>outs. CBC_decrypt self (first # cs) = (outs, Inr (Some (last (first # cs)))) \<and>
           length outs = length cs \<and>
           (\<forall>i<length cs.
              outs ! i =
                (if Suc i = length cs then remove (padding_scheme self) else id)
                  (xor_mode (decrypt_block (cipher self) (cs ! i)) ((first # cs) ! i)))"
    by simp
qed

theorem cbc_iv_framing_witness:
  "(\<exists>rest r. CBC_encrypt (CBC_init (example_cipher 2) [9, 9] example_padding) [[1, 2], [3]]
              = ([9, 9] # rest, r)) \<and>
   CBC_decrypt (CBC_init (example_cipher 2) [9, 9] example_padding) [[9, 9], [1, 2], [3, 4]]
     = ([xor_mode (decrypt_block (example_cipher 2) [1, 2]) [9, 9],
         remove example_padding (xor_mode (decrypt_block (example_cipher 2) [3, 4]) [1, 2])],
        Inr (Some [3, 4]))"
proof -
  let ?s = "CBC_init (example_cipher 2) [9, 9] example_padding"
  have s: "cipher ?s = example_cipher 2" "padding_scheme ?s = example_padding"
    by (simp_all add: CBC_init_def)
  from cbc_iv_framing [of "[[1, 2], [3]]" "example_cipher 2" "[9, 9]" example_padding ?s
         "[9, 9]" "[[1, 2], [3, 4]]"]
  obtain outs where e: "\<exists>rest r. CBC_encrypt ?s [[1, 2], [3]] = ([9, 9] # rest, r)"
    and d: "CBC_decrypt ?s [[9, 9], [1, 2], [3, 4]] = (outs, Inr (Some [3, 4]))"
    and l: "length outs = 2"
    and n: "\<forall>i<2. outs ! i =
                (if Suc i = 2 then remove example_padding else id)
                  (xor_mode (decrypt_block (example_cipher 2) ([[1, 2], [3, 4]] ! i))
                     (([9, 9] # [[1, 2], [3, 4]]) ! i))"
    by (auto simp: s)
  from n have "outs ! 0 = xor_mode (decrypt_block (example_cipher 2) [1, 2]) [9, 9]"
    "outs ! 1 = remove example_padding (xor_mode (decrypt_block (example_cipher 2) [3, 4]) [1, 2])"
    by simp_all
  with l have "outs = [xor_mode (decrypt_block (example_cipher 2) [1, 2]) [9, 9],
         remove example_padding (xor_mode (decrypt_block (example_cipher 2) [3, 4]) [1, 2])]"
    by (cases outs; cases "tl outs") auto
  with e d show ?thesis by simp
qed

text \<open>
  C8. \<open>CTR_decrypt\<close> on any session and input is \<open>CTR_encrypt\<close> on them: the same outputs
  and the same end.
\<close>

theorem ctr_decrypt_is_encrypt: "CTR_decrypt self x = CTR_encrypt self x"
  by (simp add: CTR_decrypt_def)

theorem ctr_decrypt_is_encrypt_witness:
  "CTR_decrypt (example_ctr 2 [7]) [[1, 2], [3]] = CTR_encrypt (example_ctr 2 [7]) [[1, 2], [3]]"
  by (rule ctr_decrypt_is_encrypt)

text \<open>
  C10. \<open>xor_mode\<close> (the source's \<^verbatim>\<open>_xor\<close>) of two byte strings has the length of the
  shorter one, and its byte \<open>i\<close> is the XOR of the two bytes at \<open>i\<close>.
\<close>

theorem xor_truncates:
  "length (xor_mode block1 block2) = min (length block1) (length block2) \<and>
   (\<forall>i<min (length block1) (length block2). xor_mode block1 block2 ! i = block1 ! i XOR block2 ! i)"
  by (simp add: nth_xor_mode)

theorem xor_truncates_witness:
  "length (xor_mode [1, 2, 3] [5, 6, 7, 8]) = 3 \<and>
   xor_mode [1, 2, 3] [5, 6, 7, 8] ! 0 = 4 \<and>
   xor_mode [1, 2, 3] [5, 6, 7, 8] ! 1 = 4 \<and>
   xor_mode [1, 2, 3] [5, 6, 7, 8] ! 2 = 4"
proof -
  have "\<forall>i<3. xor_mode [1, 2, 3] [5, 6, 7, 8] ! i = [1, 2, 3] ! i XOR [5, 6, 7, 8 :: byte] ! i"
    and l: "length (xor_mode [1, 2, 3] [5, 6, 7, 8]) = 3"
    using xor_truncates [of "[1, 2, 3]" "[5, 6, 7, 8]"] by simp_all
  then have "xor_mode [1, 2, 3] [5, 6, 7, 8] ! 0 = [1, 2, 3] ! 0 XOR [5, 6, 7, 8 :: byte] ! 0"
    "xor_mode [1, 2, 3] [5, 6, 7, 8] ! 1 = [1, 2, 3] ! 1 XOR [5, 6, 7, 8 :: byte] ! 1"
    "xor_mode [1, 2, 3] [5, 6, 7, 8] ! 2 = [1, 2, 3] ! 2 XOR [5, 6, 7, 8 :: byte] ! 2"
    by simp_all
  with l show ?thesis by simp
qed

section \<open>Further properties of the field engine and the modes\<close>

text \<open>
  The product of two field elements of one width over one polynomial does not depend on
  the order of the operands.
\<close>

theorem mult_commutes:
  assumes "valid_gp a" "valid_gp b" "length_gp a = length_gp b" "irr_pol a = irr_pol b"
  shows "mult a b = mult b a"
proof -
  note A = valid_gp_element [OF assms(1)]
  note B = valid_gp_element [OF assms(2)]
  have c: "gf_mult (length_gp a) (irr_pol a) (bits_value (bits a)) (bits_value (bits b))
         = gf_mult (length_gp a) (irr_pol a) (bits_value (bits b)) (bits_value (bits a))"
    by (simp add: gf_mult_def carryless_product_commute [OF A(2) B(2)])
  from mult_valid [OF assms(1,2,3)] mult_valid [OF assms(2,1) assms(3) [symmetric]]
  show ?thesis using assms(3,4) c by auto
qed

theorem mult_commutes_witness:
  "mult (element 8 [8, 4, 3, 1, 0] 83) (element 8 [8, 4, 3, 1, 0] 202)
   = mult (element 8 [8, 4, 3, 1, 0] 202) (element 8 [8, 4, 3, 1, 0] 83)"
  by (rule mult_commutes) (simp_all add: valid_aes_element)

text \<open>
  Every field element is its own additive inverse: \<open>xor\<close> of an element with itself is the
  element of value zero.
\<close>

theorem xor_self_is_zero:
  "valid_gp a \<Longrightarrow> xor_gp a a = Inr (element (length_gp a) (irr_pol a) 0)"
  using xor_valid [of a a] by simp

theorem xor_self_is_zero_witness:
  "xor_gp (element 8 [8, 4, 3, 1, 0] 83) (element 8 [8, 4, 3, 1, 0] 83)
   = Inr (element 8 [8, 4, 3, 1, 0] 0)"
  using xor_self_is_zero [OF valid_aes_element [of 83]] by simp

text \<open>
  The element of value one is the multiplicative identity: it can be constructed for
  every field element's width and polynomial, and multiplying by it returns the element.
\<close>

theorem mult_by_one:
  assumes "valid_gp a" "\<forall>e\<in>set (irr_pol a). 0 \<le> e" "0 < length_gp a"
  shows "\<exists>one. GaloisPolynomial_init (length_gp a) 1 (irr_pol a) = Inr one \<and> mult a one = Inr a"
proof -
  note A = valid_gp_element [OF assms(1)]
  let ?n = "length_gp a" and ?p = "irr_pol a"
  have ne: "?p \<noteq> []" using py_max_Max [OF A(4)] by simp
  have one: "(1::int) < 2 ^ ?n" using assms(3) by (simp add: one_less_power)
  have i: "GaloisPolynomial_init ?n 1 ?p = Inr (element ?n ?p 1)"
    by (rule init_ok [OF ne A(4) _ one]) simp
  have cp: "carryless_product (bits_value (bits a)) 1 = bits_value (bits a)"
    using carryless_product_power [of "bits_value (bits a)" 0] by simp
  have "mult (element ?n ?p (bits_value (bits a))) (element ?n ?p 1)
        = Inr (element ?n ?p (gf_mult ?n ?p (bits_value (bits a)) 1))"
    by (rule mult_element [OF A(4) assms(2) A(2,3) _ one]) simp
  also have "gf_mult ?n ?p (bits_value (bits a)) 1 = bits_value (bits a)"
    by (simp add: gf_mult_def cp poly_reduce_small [OF A(2,3)])
  finally have "mult a (element ?n ?p 1) = Inr a" using A(1) by simp
  with i show ?thesis by blast
qed

theorem mult_by_one_witness:
  "\<exists>one. GaloisPolynomial_init 8 1 [8, 4, 3, 1, 0] = Inr one \<and>
         mult (element 8 [8, 4, 3, 1, 0] 83) one = Inr (element 8 [8, 4, 3, 1, 0] 83)"
  using mult_by_one [OF valid_aes_element [of 83]] by simp

text \<open>
  CTR round trip: when the nonce is half a block wide, the cipher primitive maps blocks to
  blocks, no chunk is longer than a block and the counter fits its field, decrypting the
  encryption of a chunk sequence gives the sequence back, a shorter last chunk included.
\<close>

theorem ctr_roundtrip:
  assumes "length (nonce self) + length (nonce self) = block_size (cipher self)"
      and "\<forall>b. length b = block_size (cipher self) \<longrightarrow>
             length (encrypt_block (cipher self) b) = block_size (cipher self)"
      and "\<forall>d\<in>set xs. length d \<le> block_size (cipher self)"
      and "int (length xs) \<le> 256 ^ length (nonce self)"
  shows "CTR_decrypt self (fst (CTR_encrypt self xs)) = (xs, Inr ())"
proof -
  have e: "CTR_encrypt self ys = (keystream_xor self 0 ys, Inr ())"
    if "length ys = length xs" for ys
    unfolding CTR_encrypt_def
    using ctr_loop_ok [of self 0 "eof_signal_iterator ys"] assms(1,4) that by simp
  have "CTR_decrypt self (fst (CTR_encrypt self xs))
        = (keystream_xor self 0 (keystream_xor self 0 xs), Inr ())"
    by (simp add: CTR_decrypt_def e)
  also have "keystream_xor self 0 (keystream_xor self 0 xs) = xs"
    by (rule keystream_xor_twice [OF assms(2,1,3)])
  finally show ?thesis .
qed

theorem ctr_roundtrip_witness:
  "CTR_decrypt (example_ctr 2 [7]) (fst (CTR_encrypt (example_ctr 2 [7]) [[1, 2], [3]]))
   = ([[1, 2], [3]], Inr ())"
  by (rule ctr_roundtrip) (simp_all add: example_ctr_def example_cipher_def)

text \<open>
  GCM rejects a wrong tag: decrypting an encrypted stream whose last block has been
  replaced by any other block still yields the plaintext, and verification returns false.
\<close>

theorem gcm_wrong_tag:
  assumes cfg: "gcm_config self p"
      and pt: "\<forall>d\<in>set plaintext. length d = block_size (cipher self)"
      and n: "1 + int (length plaintext) \<le> 256 ^ length (nonce self)"
      and t: "t \<noteq> last (fst (GCM_encrypt self plaintext))"
  shows "GCM_decrypt self (butlast (fst (GCM_encrypt self plaintext)) @ [t])
         = (plaintext, Inr False)"
proof -
  note F = gcm_config_facts [OF cfg]
  note A = header_value_bounds [OF cfg F(3)]
  let ?hb = "le_bytes (block_size (cipher self)) (from_bytes_little (header self))"
  let ?cts = "keystream_xor self 1 plaintext"
  let ?tag = "gcm_tag self p (from_bytes_little (header self)) ?cts
              (extra_block self (1 + int (length plaintext)))"
  have enc: "fst (GCM_encrypt self plaintext) = (?hb # ?cts) @ [?tag]"
    by (simp add: gcm_encrypt_ok [OF cfg pt n])
  from keystream_xor_involution [OF _ F(2) pt, of 1] F(4)
  have inv: "keystream_xor self 1 ?cts = plaintext"
    "\<forall>d\<in>set ?cts. length d = block_size (cipher self)"
    by simp_all
  have hv: "from_bytes_little ?hb = from_bytes_little (header self)"
    by (rule from_bytes_le_bytes [OF A(1,3)])
  have len: "1 + int (length ?cts) \<le> 256 ^ length (nonce self)" using n by simp
  have "GCM_decrypt self (?hb # ?cts @ [t]) =
          (keystream_xor self 1 ?cts,
           Inr (gcm_tag self p (from_bytes_little ?hb) ?cts
                  (extra_block self (1 + int (length ?cts))) = t))"
    by (rule gcm_decrypt_ok [OF cfg _ inv(2) len]) simp
  moreover have "t \<noteq> ?tag" using t unfolding enc by simp
  ultimately show ?thesis unfolding enc by (auto simp: inv(1) hv)
qed

theorem gcm_wrong_tag_witness:
  "GCM_decrypt (example_gcm 8 [1, 2, 3, 4] [5, 6])
     (butlast (fst (GCM_encrypt (example_gcm 8 [1, 2, 3, 4] [5, 6]) [[1, 2, 3, 4, 5, 6, 7, 8]]))
      @ [[105, 106, 115, 225, 156, 199, 205, 167]])
   = ([[1, 2, 3, 4, 5, 6, 7, 8]], Inr False)"
proof -
  let ?s = "example_gcm 8 [1, 2, 3, 4] [5, 6]"
  have h: "\<forall>d\<in>set [[1, 2, 3, 4, 5, 6, 7, 8 :: byte]]. length d = block_size (cipher ?s)"
    "1 + int (length [[1, 2, 3, 4, 5, 6, 7, 8 :: byte]]) \<le> 256 ^ length (nonce ?s)"
    by (simp_all add: example_gcm_def example_cipher_def)
  have hd: "header ?s = [5, 6]" by (simp add: example_gcm_def)
  have ks: "keystream_xor ?s 1 [[1, 2, 3, 4, 5, 6, 7, 8]] = [[3, 1, 7, 1, 4, 7, 6, 10]]"
    by code_simp
  have tg: "gcm_tag ?s [64, 4, 3, 1, 0] (from_bytes_little [5, 6])
     [[3, 1, 7, 1, 4, 7, 6, 10]] (extra_block ?s (1 + 1))
     = [106, 105, 112, 226, 159, 196, 206, 164]"
    by code_simp
  have "last (fst (GCM_encrypt ?s [[1, 2, 3, 4, 5, 6, 7, 8]]))
        = [106, 105, 112, 226, 159, 196, 206, 164]"
    using gcm_encrypt_ok [OF example_gcm_config h] tg unfolding hd ks by simp
  then have "[105, 106, 115, 225, 156, 199, 205, 167]
        \<noteq> last (fst (GCM_encrypt ?s [[1, 2, 3, 4, 5, 6, 7, 8]]))"
    by simp
  from gcm_wrong_tag [OF example_gcm_config h this] show ?thesis .
qed

end
